theory Spec2Isabelle
  imports
    Main
    "HOL-Library.AList"
    "HOL-Library.While_Combinator"
    "HOL-Library.Sublist"
begin

section \<open>Data model\<close>

text \<open>
  Both modules work on the same four pieces of data: the list of variables, a dictionary
  from a variable to its current domain (a Python list that is pruned in place), a
  dictionary from a variable to the list of its neighbours, and the constraints.  In
  \<^verbatim>\<open>csp_ac3.py\<close> the constraints are one predicate over two variables and a value for
  each; in \<^verbatim>\<open>csp_backtracking.py\<close> they are the list of constrained pairs.  The record
  leaves the type of that field open, and also what the dictionary of domains holds.

  A Python dictionary is a finite mapping that keeps insertion order, so it is an
  association list with unique keys: \<open>map_of\<close> reads, \<open>AList.update\<close> is the
  assignment \<^verbatim>\<open>d[k] = v\<close> (in place for a key that is present, appended otherwise) and
  \<open>AList.delete\<close> is \<^verbatim>\<open>del d[k]\<close>.  A read of a missing key raises \<^verbatim>\<open>KeyError\<close>.
\<close>

datatype error = KeyError | ValueError

type_synonym ('k, 'v) dict = "('k \<times> 'v) list"

record ('v, 'd, 'c) csp =
  variables :: "'v list"
  domains :: "('v, 'd) dict"
  neighbors :: "('v, 'v list) dict"
  constraints :: "'c"

section \<open>AC-3 (\<^verbatim>\<open>csp_ac3.py\<close>)\<close>

text \<open>
  The instance of \<^verbatim>\<open>ac3\<close> is a dictionary built by the caller, and \<^verbatim>\<open>revise\<close> prunes
  a domain by \<^verbatim>\<open>list.remove\<close> on the list object itself.  A caller can put one list
  object under two keys, and then a removal shows in both domains.  So the dictionary of
  domains holds references, and the list objects live in a store \<open>lists\<close> from references
  to lists; a removal is an update of the store at the reference.
\<close>

type_synonym ref = nat

type_synonym ('v, 'a) predicate = "'v \<Rightarrow> 'a \<Rightarrow> 'v \<Rightarrow> 'a \<Rightarrow> bool"

record ('v, 'a) ac3_csp = "('v, ref, ('v, 'a) predicate) csp" +
  lists :: "ref \<Rightarrow> 'a list"

text \<open>
  \<^verbatim>\<open>revise\<close> walks over a copy of the domain of \<open>xi\<close>; for each value it reads the
  live domain of \<open>xj\<close>, and removes the first occurrence of the value from the live
  domain of \<open>xi\<close> when no value of \<open>xj\<close> supports it.  The result pairs what the call
  returns (or raises) with the instance as the call leaves it.
\<close>

fun revise_loop ::
  "('v, 'a) ac3_csp \<Rightarrow> 'v \<Rightarrow> 'v \<Rightarrow> 'a list \<Rightarrow> bool \<Rightarrow> (error + bool) \<times> ('v, 'a) ac3_csp"
where
  "revise_loop csp xi xj [] revised = (Inr revised, csp)"
| "revise_loop csp xi xj (x # xs) revised =
     (case map_of (domains csp) xj of
        None \<Rightarrow> (Inl KeyError, csp)
      | Some pj \<Rightarrow>
          if \<not> list_ex (\<lambda>y. constraints csp xi x xj y) (lists csp pj) then
            (case map_of (domains csp) xi of
               None \<Rightarrow> (Inl KeyError, csp)
             | Some pi \<Rightarrow>
                 if x \<in> set (lists csp pi) then
                   revise_loop (csp\<lparr>lists := (lists csp)(pi := remove1 x (lists csp pi))\<rparr>)
                     xi xj xs True
                 else (Inl ValueError, csp))
          else revise_loop csp xi xj xs revised)"

definition revise ::
  "('v, 'a) ac3_csp \<Rightarrow> 'v \<Rightarrow> 'v \<Rightarrow> (error + bool) \<times> ('v, 'a) ac3_csp"
where
  "revise csp xi xj =
     (case map_of (domains csp) xi of
        None \<Rightarrow> (Inl KeyError, csp)
      | Some pi \<Rightarrow> revise_loop csp xi xj (lists csp pi) False)"

text \<open>The initial worklist: every arc \<open>(xi, xj)\<close> with \<open>xi\<close> a variable and \<open>xj\<close> one of its
  neighbours, in the order of the comprehension.\<close>

fun initial_queue :: "('v, 'a) ac3_csp \<Rightarrow> 'v list \<Rightarrow> error + ('v \<times> 'v) list" where
  "initial_queue csp [] = Inr []"
| "initial_queue csp (xi # xs) =
     (case map_of (neighbors csp) xi of
        None \<Rightarrow> Inl KeyError
      | Some ns \<Rightarrow>
          (case initial_queue csp xs of
             Inl e \<Rightarrow> Inl e
           | Inr q \<Rightarrow> Inr (map (\<lambda>xj. (xi, xj)) ns @ q)))"

text \<open>
  The state of the \<^verbatim>\<open>while queue:\<close> loop: the worklist, the instance, and the value
  the function has returned or the error it has raised, if it has left the loop early.
\<close>

type_synonym ('v, 'a) ac3_state =
  "('v \<times> 'v) list \<times> ('v, 'a) ac3_csp \<times> (error + bool) option"

fun ac3_cond :: "('v, 'a) ac3_state \<Rightarrow> bool" where
  "ac3_cond (queue, csp, ret) = (queue \<noteq> [] \<and> ret = None)"

fun ac3_body :: "('v, 'a) ac3_state \<Rightarrow> ('v, 'a) ac3_state" where
  "ac3_body ([], csp, ret) = ([], csp, ret)"
| "ac3_body ((xi, xj) # queue, csp, ret) =
     (case revise csp xi xj of
        (Inl e, csp') \<Rightarrow> (queue, csp', Some (Inl e))
      | (Inr False, csp') \<Rightarrow> (queue, csp', None)
      | (Inr True, csp') \<Rightarrow>
          (case map_of (domains csp') xi of
             None \<Rightarrow> (queue, csp', Some (Inl KeyError))
           | Some pi \<Rightarrow>
               if lists csp' pi = [] then (queue, csp', Some (Inr False))
               else
                 (case map_of (neighbors csp') xi of
                    None \<Rightarrow> (queue, csp', Some (Inl KeyError))
                  | Some ns \<Rightarrow>
                      (queue @ map (\<lambda>xk. (xk, xi)) (filter (\<lambda>xk. xk \<noteq> xj) ns), csp', None))))"

definition ac3_result :: "('v, 'a) ac3_state \<Rightarrow> (error + bool) \<times> ('v, 'a) ac3_csp" where
  "ac3_result s =
     (case s of (queue, csp, ret) \<Rightarrow> (case ret of None \<Rightarrow> (Inr True, csp) | Some r \<Rightarrow> (r, csp)))"

text \<open>The loop from a given state; \<open>None\<close> stands for a loop that never ends.\<close>

definition ac3_loop ::
  "('v, 'a) ac3_state \<Rightarrow> ((error + bool) \<times> ('v, 'a) ac3_csp) option"
where
  "ac3_loop s = map_option ac3_result (while_option ac3_cond ac3_body s)"

definition ac3 :: "('v, 'a) ac3_csp \<Rightarrow> ((error + bool) \<times> ('v, 'a) ac3_csp) option" where
  "ac3 csp =
     (case initial_queue csp (variables csp) of
        Inl e \<Rightarrow> Some (Inl e, csp)
      | Inr queue \<Rightarrow> ac3_loop (queue, csp, None))"

subsection \<open>The instance at module scope\<close>

text \<open>The store that holds the given lists at the references 0, 1, 2 and so on.\<close>

definition store_of :: "'a list list \<Rightarrow> ref \<Rightarrow> 'a list" where
  "store_of ls p = (if p < length ls then ls ! p else [])"

definition constraint :: "(string, int) predicate" where
  "constraint xi x xj y =
     (if xi = ''B'' \<and> xj = ''A'' then x = y + 1
      else if xi = ''A'' \<and> xj = ''B'' then x + 1 = y
      else if (xi = ''C'' \<and> xj = ''B'') \<or> (xi = ''B'' \<and> xj = ''C'') then x \<noteq> y
      else True)"

text \<open>The three domains are three list objects, at the references 0, 1 and 2.\<close>

definition example_csp :: "(string, int) ac3_csp" where
  "example_csp =
     \<lparr>variables = [''A'', ''B'', ''C''],
      domains = [(''A'', 0), (''B'', 1), (''C'', 2)],
      neighbors = [(''A'', [''B'']), (''B'', [''A'', ''C'']), (''C'', [''B''])],
      constraints = constraint,
      lists = store_of [[1, 2, 3], [1, 2, 3], [2, 3]]\<rparr>"

section \<open>Backtracking search with forward checking (\<^verbatim>\<open>csp_backtracking.py\<close>)\<close>

type_synonym ('v, 'a) search_csp = "('v, 'a list, ('v \<times> 'v) list) csp"

type_synonym ('v, 'a) assignment = "('v, 'a) dict"

subsection \<open>The class \<^verbatim>\<open>CSP\<close>\<close>

text \<open>
  Here the dictionary of domains holds the lists themselves: each variable is taken to
  own its list object, as in \<^verbatim>\<open>solve_sudoku\<close>, which builds a fresh list for every
  cell, and pruning a domain in place is an update of the dictionary at that key.
\<close>

text \<open>
  \<^verbatim>\<open>_build_neighbors\<close> starts from the dictionary that gives every variable the empty
  list and appends, for each constrained pair and in the order of the list, each end to
  the other end's list.  A pair that names something that is no variable raises.
\<close>

fun build_neighbors_loop ::
  "('v, 'v list) dict \<Rightarrow> ('v \<times> 'v) list \<Rightarrow> error + ('v, 'v list) dict"
where
  "build_neighbors_loop nbs [] = Inr nbs"
| "build_neighbors_loop nbs ((v1, v2) # pairs) =
     (case map_of nbs v1 of
        None \<Rightarrow> Inl KeyError
      | Some l1 \<Rightarrow>
          (let nbs1 = AList.update v1 (l1 @ [v2]) nbs in
           case map_of nbs1 v2 of
             None \<Rightarrow> Inl KeyError
           | Some l2 \<Rightarrow> build_neighbors_loop (AList.update v2 (l2 @ [v1]) nbs1) pairs))"

definition build_neighbors ::
  "'v list \<Rightarrow> ('v \<times> 'v) list \<Rightarrow> error + ('v, 'v list) dict"
where
  "build_neighbors vars pairs =
     build_neighbors_loop (fold (\<lambda>var nbs. AList.update var [] nbs) vars []) pairs"

definition CSP ::
  "'v list \<Rightarrow> ('v, 'a list) dict \<Rightarrow> ('v \<times> 'v) list \<Rightarrow> error + ('v, 'a) search_csp"
where
  "CSP vars doms pairs =
     (case build_neighbors vars pairs of
        Inl e \<Rightarrow> Inl e
      | Inr nbs \<Rightarrow>
          Inr \<lparr>variables = vars, domains = doms, neighbors = nbs, constraints = pairs\<rparr>)"

subsection \<open>Heuristics and inference\<close>

text \<open>
  Python's \<^verbatim>\<open>min\<close> with a key: it raises \<^verbatim>\<open>ValueError\<close> on the empty sequence, computes
  the key of every element in order, and keeps the first element whose key is smallest.
\<close>

fun min_loop :: "('v \<Rightarrow> error + nat) \<Rightarrow> 'v \<Rightarrow> nat \<Rightarrow> 'v list \<Rightarrow> error + 'v" where
  "min_loop key best kbest [] = Inr best"
| "min_loop key best kbest (x # xs) =
     (case key x of
        Inl e \<Rightarrow> Inl e
      | Inr k \<Rightarrow> if k < kbest then min_loop key x k xs else min_loop key best kbest xs)"

fun py_min :: "('v \<Rightarrow> error + nat) \<Rightarrow> 'v list \<Rightarrow> error + 'v" where
  "py_min key [] = Inl ValueError"
| "py_min key (x # xs) =
     (case key x of Inl e \<Rightarrow> Inl e | Inr k \<Rightarrow> min_loop key x k xs)"

definition select_unassigned_variable ::
  "('v, 'a) assignment \<Rightarrow> ('v, 'a) search_csp \<Rightarrow> error + 'v"
where
  "select_unassigned_variable assignment csp =
     (let unassigned = filter (\<lambda>v. map_of assignment v = None) (variables csp)
      in py_min
           (\<lambda>var. case map_of (domains csp) var of
                     None \<Rightarrow> Inl KeyError
                   | Some d \<Rightarrow> Inr (length d))
           unassigned)"

definition domain_values ::
  "'v \<Rightarrow> ('v, 'a) assignment \<Rightarrow> ('v, 'a) search_csp \<Rightarrow> error + 'a list"
where
  "domain_values var assignment csp =
     (case map_of (domains csp) var of None \<Rightarrow> Inl KeyError | Some d \<Rightarrow> Inr d)"

definition is_consistent ::
  "'v \<Rightarrow> 'a \<Rightarrow> ('v, 'a) assignment \<Rightarrow> ('v, 'a) search_csp \<Rightarrow> error + bool"
where
  "is_consistent var val assignment csp =
     (case map_of (neighbors csp) var of
        None \<Rightarrow> Inl KeyError
      | Some ns \<Rightarrow> Inr (\<not> list_ex (\<lambda>neighbor. map_of assignment neighbor = Some val) ns))"

text \<open>
  \<^verbatim>\<open>forward_checking\<close> returns the dictionary of what it removed, or \<^verbatim>\<open>None\<close> as soon
  as a neighbour's domain is empty; the removals made up to there stay in the domains.
\<close>

fun forward_checking_loop ::
  "'a \<Rightarrow> ('v, 'a) assignment \<Rightarrow> 'v list \<Rightarrow> ('v, 'a list) dict \<Rightarrow> ('v, 'a) search_csp \<Rightarrow>
   (error + ('v, 'a list) dict option) \<times> ('v, 'a) search_csp"
where
  "forward_checking_loop val assignment [] removed csp = (Inr (Some removed), csp)"
| "forward_checking_loop val assignment (neighbor # ns) removed csp =
     (if map_of assignment neighbor = None then
        (case map_of (domains csp) neighbor of
           None \<Rightarrow> (Inl KeyError, csp)
         | Some d \<Rightarrow>
             if val \<in> set d then
               (let csp' = csp\<lparr>domains := AList.update neighbor (remove1 val d) (domains csp)\<rparr>;
                    removed' = AList.update neighbor [val] removed
                in if length (remove1 val d) = 0 then (Inr None, csp')
                   else forward_checking_loop val assignment ns removed' csp')
             else forward_checking_loop val assignment ns removed csp)
      else forward_checking_loop val assignment ns removed csp)"

definition forward_checking ::
  "'v \<Rightarrow> 'a \<Rightarrow> ('v, 'a) assignment \<Rightarrow> ('v, 'a) search_csp \<Rightarrow>
   (error + ('v, 'a list) dict option) \<times> ('v, 'a) search_csp"
where
  "forward_checking var val assignment csp =
     (case map_of (neighbors csp) var of
        None \<Rightarrow> (Inl KeyError, csp)
      | Some ns \<Rightarrow> forward_checking_loop val assignment ns [] csp)"

text \<open>
  \<^verbatim>\<open>remove_inference\<close> does nothing when it is handed \<^verbatim>\<open>None\<close>.  Otherwise it appends
  to each recorded neighbour's domain the recorded values that are not in it, and sorts
  that domain.
\<close>

fun restore_values :: "'a list \<Rightarrow> 'a list \<Rightarrow> 'a list" where
  "restore_values [] d = d"
| "restore_values (val # vals) d = restore_values vals (if val \<in> set d then d else d @ [val])"

fun remove_inference_loop ::
  "('v \<times> 'a::linorder list) list \<Rightarrow> ('v, 'a) search_csp \<Rightarrow> (error + unit) \<times> ('v, 'a) search_csp"
where
  "remove_inference_loop [] csp = (Inr (), csp)"
| "remove_inference_loop ((neighbor, vals) # items) csp =
     (case map_of (domains csp) neighbor of
        None \<Rightarrow> (Inl KeyError, csp)
      | Some d \<Rightarrow>
          remove_inference_loop items
            (csp\<lparr>domains := AList.update neighbor (sort (restore_values vals d)) (domains csp)\<rparr>))"

definition remove_inference ::
  "'v \<Rightarrow> 'a \<Rightarrow> ('v, 'a::linorder list) dict option \<Rightarrow> ('v, 'a) assignment \<Rightarrow>
   ('v, 'a) search_csp \<Rightarrow> (error + unit) \<times> ('v, 'a) search_csp"
where
  "remove_inference var val inferences assignment csp =
     (case inferences of
        None \<Rightarrow> (Inr (), csp)
      | Some removed \<Rightarrow> remove_inference_loop removed csp)"

subsection \<open>The search\<close>

text \<open>
  \<^verbatim>\<open>backtrack\<close> mutates the assignment and the domains, so the model hands both back
  together with what the call returns or raises.  The first argument bounds the number
  of nested \<^verbatim>\<open>backtrack\<close> frames; \<open>None\<close> says that the bound was too small.
  \<open>try_values\<close> is the \<^verbatim>\<open>for value in ...\<close> loop over the domain of the selected
  variable.
\<close>

type_synonym ('v, 'a) search_result =
  "(error + ('v, 'a) assignment option) \<times> ('v, 'a) assignment \<times> ('v, 'a) search_csp"

fun backtrack ::
  "nat \<Rightarrow> ('v, 'a::linorder) assignment \<Rightarrow> ('v, 'a) search_csp \<Rightarrow> ('v, 'a) search_result option"
and try_values ::
  "nat \<Rightarrow> 'v \<Rightarrow> 'a list \<Rightarrow> ('v, 'a) assignment \<Rightarrow> ('v, 'a) search_csp \<Rightarrow>
   ('v, 'a) search_result option"
where
  "backtrack 0 assignment csp = None"
| "backtrack (Suc depth) assignment csp =
     (if length assignment = length (variables csp) then Some (Inr (Some assignment), assignment, csp)
      else
        (case select_unassigned_variable assignment csp of
           Inl e \<Rightarrow> Some (Inl e, assignment, csp)
         | Inr var \<Rightarrow>
             (case domain_values var assignment csp of
                Inl e \<Rightarrow> Some (Inl e, assignment, csp)
              | Inr vals \<Rightarrow> try_values depth var vals assignment csp)))"
| "try_values depth var [] assignment csp = Some (Inr None, assignment, csp)"
| "try_values depth var (val # vals) assignment csp =
     (case is_consistent var val assignment csp of
        Inl e \<Rightarrow> Some (Inl e, assignment, csp)
      | Inr False \<Rightarrow> try_values depth var vals assignment csp
      | Inr True \<Rightarrow>
          (let assignment1 = AList.update var val assignment in
           case forward_checking var val assignment1 csp of
             (Inl e, csp1) \<Rightarrow> Some (Inl e, assignment1, csp1)
           | (Inr inferences, csp1) \<Rightarrow>
               (case (if inferences \<noteq> None then backtrack depth assignment1 csp1
                      else Some (Inr None, assignment1, csp1)) of
                  None \<Rightarrow> None
                | Some (Inl e, assignment2, csp2) \<Rightarrow> Some (Inl e, assignment2, csp2)
                | Some (Inr (Some result), assignment2, csp2) \<Rightarrow>
                    Some (Inr (Some result), assignment2, csp2)
                | Some (Inr None, assignment2, csp2) \<Rightarrow>
                    (case remove_inference var val inferences assignment2 csp2 of
                       (Inl e, csp3) \<Rightarrow> Some (Inl e, assignment2, csp3)
                     | (Inr u, csp3) \<Rightarrow>
                         if map_of assignment2 var = None then Some (Inl KeyError, assignment2, csp3)
                         else try_values depth var vals (AList.delete var assignment2) csp3))))"

section \<open>Notions used to state the properties\<close>

text \<open>
  The domain of a variable: the list object that the dictionary of domains refers to.
  \<open>None\<close> for a variable without an entry.
\<close>

definition domain_of :: "('v, 'a) ac3_csp \<Rightarrow> 'v \<Rightarrow> 'a list option" where
  "domain_of csp v = map_option (lists csp) (map_of (domains csp) v)"

text \<open>
  \<open>csp'\<close> comes from \<open>csp\<close> by taking values out: the variables, the neighbours, the
  predicate and the dictionary of domains (which variable refers to which list object)
  are the same, and every list object of \<open>csp'\<close> is a subsequence of what it was in
  \<open>csp\<close>.
\<close>

definition pruned_from :: "('v, 'a) ac3_csp \<Rightarrow> ('v, 'a) ac3_csp \<Rightarrow> bool" where
  "pruned_from csp' csp \<longleftrightarrow>
     variables csp' = variables csp \<and> neighbors csp' = neighbors csp \<and>
     constraints csp' = constraints csp \<and> domains csp' = domains csp \<and>
     (\<forall>p. subseq (lists csp' p) (lists csp p))"

text \<open>No domain that had a value in \<open>csp\<close> is empty in \<open>csp'\<close>.\<close>

definition no_domain_emptied :: "('v, 'a) ac3_csp \<Rightarrow> ('v, 'a) ac3_csp \<Rightarrow> bool" where
  "no_domain_emptied csp csp' \<longleftrightarrow>
     (\<forall>v d. domain_of csp v = Some d \<and> d \<noteq> [] \<longrightarrow> domain_of csp' v \<noteq> Some [])"



text \<open>
  The invariant behind the value that \<^verbatim>\<open>ac3\<close> returns: while the loop runs no domain has
  been emptied; once it has returned, it has returned \<^verbatim>\<open>False\<close> and a domain that had a
  value is empty.
\<close>

definition ac3_inv :: "('v, 'a) ac3_csp \<Rightarrow> ('v, 'a) ac3_state \<Rightarrow> bool" where
  "ac3_inv csp s =
     (case s of (queue, c, ret) \<Rightarrow>
        pruned_from c csp \<and>
        (case ret of
           None \<Rightarrow> no_domain_emptied csp c
         | Some (Inl e) \<Rightarrow> True
         | Some (Inr b) \<Rightarrow> \<not> b \<and> \<not> no_domain_emptied csp c))"

text \<open>
  An arc \<open>(xi, xj)\<close> is supported when every value of \<open>xi\<close> has a value of \<open>xj\<close> with
  which the predicate holds: \<^verbatim>\<open>revise\<close> has nothing to remove.
\<close>

definition supported_arc :: "('v, 'a) ac3_csp \<Rightarrow> 'v \<Rightarrow> 'v \<Rightarrow> bool" where
  "supported_arc csp xi xj \<longleftrightarrow>
     (\<exists>pi. map_of (domains csp) xi = Some pi \<and>
        (\<forall>x\<in>set (lists csp pi). \<exists>pj. map_of (domains csp) xj = Some pj \<and>
           (\<exists>y\<in>set (lists csp pj). constraints csp xi x xj y)))"

text \<open>
  \<open>(xi, xj)\<close> is a neighbour pair when \<open>xj\<close> is in the neighbour list of \<open>xi\<close>, and an arc
  of the initial worklist when moreover \<open>xi\<close> is a variable.
\<close>

definition neighbor_pair :: "('v, 'a) ac3_csp \<Rightarrow> 'v \<times> 'v \<Rightarrow> bool" where
  "neighbor_pair csp a \<longleftrightarrow>
     (\<exists>ns. map_of (neighbors csp) (fst a) = Some ns \<and> snd a \<in> set ns)"

definition is_arc :: "('v, 'a) ac3_csp \<Rightarrow> 'v \<times> 'v \<Rightarrow> bool" where
  "is_arc csp a \<longleftrightarrow> fst a \<in> set (variables csp) \<and> neighbor_pair csp a"

text \<open>
  Three properties of an instance.  The neighbour lists are symmetric; the predicate
  answers the same for a neighbour pair and its reverse; and no list object is the domain
  of two variables.
\<close>

definition symmetric_neighbors :: "('v, 'a) ac3_csp \<Rightarrow> bool" where
  "symmetric_neighbors csp \<longleftrightarrow>
     (\<forall>a. neighbor_pair csp a \<longrightarrow> neighbor_pair csp (snd a, fst a))"

definition symmetric_predicate :: "('v, 'a) ac3_csp \<Rightarrow> bool" where
  "symmetric_predicate csp \<longleftrightarrow>
     (\<forall>a. neighbor_pair csp a \<longrightarrow>
        (\<forall>x y. constraints csp (fst a) x (snd a) y = constraints csp (snd a) y (fst a) x))"

definition own_lists :: "('v, 'a) ac3_csp \<Rightarrow> bool" where
  "own_lists csp \<longleftrightarrow>
     (\<forall>u v p. map_of (domains csp) u = Some p \<and> map_of (domains csp) v = Some p \<longrightarrow> u = v)"

text \<open>
  The invariant behind a second run: every arc of the initial worklist is waiting in the
  worklist or is supported.
\<close>

definition ac3_arcs_inv :: "('v, 'a) ac3_csp \<Rightarrow> ('v, 'a) ac3_state \<Rightarrow> bool" where
  "ac3_arcs_inv csp s =
     (case s of (queue, c, ret) \<Rightarrow>
        pruned_from c csp \<and> (\<forall>a\<in>set queue. neighbor_pair csp a) \<and> ret \<noteq> Some (Inr True) \<and>
        (ret = None \<longrightarrow>
           (\<forall>a. is_arc csp a \<longrightarrow> a \<in> set queue \<or> supported_arc c (fst a) (snd a))))"

text \<open>The number of values left in the domain of a variable, for the search.\<close>

definition remaining :: "('v, 'a list, 'c) csp \<Rightarrow> 'v \<Rightarrow> nat" where
  "remaining csp v = (case map_of (domains csp) v of None \<Rightarrow> 0 | Some d \<Rightarrow> length d)"




text \<open>The variables without a value, in the order of \<^verbatim>\<open>csp.variables\<close>.\<close>

definition unassigned :: "('v, 'a) assignment \<Rightarrow> ('v, 'a list, 'c) csp \<Rightarrow> 'v list" where
  "unassigned asg csp = filter (\<lambda>v. map_of asg v = None) (variables csp)"



text \<open>
  An assignment is consistent when its keys are variables, each with one value, and the
  two ends of a constrained pair of different variables do not both hold the same value.
  A call is sound when the assignment it returns, if any, is consistent and has as many
  entries as there are variables.
\<close>

definition consistent_with :: "('v, 'a) assignment \<Rightarrow> ('v, 'a) search_csp \<Rightarrow> bool" where
  "consistent_with asg csp \<longleftrightarrow>
     distinct (map fst asg) \<and> fst ` set asg \<subseteq> set (variables csp) \<and>
     (\<forall>p\<in>set (constraints csp). fst p \<noteq> snd p \<longrightarrow>
        (\<forall>x. map_of asg (fst p) = Some x \<longrightarrow> map_of asg (snd p) \<noteq> Some x))"

definition sound_result :: "('v, 'a) search_csp \<Rightarrow> ('v, 'a) search_result \<Rightarrow> bool" where
  "sound_result csp res =
     (case res of (r, asg', csp') \<Rightarrow>
        (\<forall>s. r = Inr (Some s) \<longrightarrow> consistent_with s csp \<and> length s = length (variables csp)))"

subsection \<open>Further instances\<close>

text \<open>
  One variable that is its own neighbour, with the predicate \<^verbatim>\<open>lambda xi, x, xj, y: y < x\<close>.
\<close>

definition smaller_value :: "(string, int) predicate" where
  "smaller_value xi x xj y = (y < x)"

definition self_arc_csp :: "(string, int) ac3_csp" where
  "self_arc_csp =
     \<lparr>variables = [''A''],
      domains = [(''A'', 0)],
      neighbors = [(''A'', [''A''])],
      constraints = smaller_value,
      lists = store_of [[1, 2, 3]]\<rparr>"

text \<open>
  Two variables with symmetric neighbour lists and a predicate that asks for equal values
  on the arc (A, B) and for the value 1 on the arc (B, A).
\<close>

definition one_way_predicate :: "(string, int) predicate" where
  "one_way_predicate xi x xj y =
     (if xi = ''A'' \<and> xj = ''B'' then x = y
      else if xi = ''B'' \<and> xj = ''A'' then x = 1
      else True)"

definition one_way_predicate_csp :: "(string, int) ac3_csp" where
  "one_way_predicate_csp =
     \<lparr>variables = [''A'', ''B''],
      domains = [(''A'', 0), (''B'', 1)],
      neighbors = [(''A'', [''B'']), (''B'', [''A''])],
      constraints = one_way_predicate,
      lists = store_of [[1, 2], [1, 2]]\<rparr>"

text \<open>
  Three variables with the predicate \<^verbatim>\<open>lambda xi, x, xj, y: x == y\<close>, where B is a
  neighbour of A and C is a neighbour of B, but not the other way round.
\<close>

definition equal_values :: "(string, int) predicate" where
  "equal_values xi x xj y = (x = y)"

definition one_way_neighbors_csp :: "(string, int) ac3_csp" where
  "one_way_neighbors_csp =
     \<lparr>variables = [''A'', ''B'', ''C''],
      domains = [(''A'', 0), (''B'', 1), (''C'', 2)],
      neighbors = [(''A'', [''B'']), (''B'', [''C'']), (''C'', [])],
      constraints = equal_values,
      lists = store_of [[1, 2], [1, 2], [1]]\<rparr>"

text \<open>
  The instance at module scope with one list object \<^verbatim>\<open>[2, 1, 3]\<close> as the domain of both A
  and B.
\<close>

definition shared_list_csp :: "(string, int) ac3_csp" where
  "shared_list_csp =
     \<lparr>variables = [''A'', ''B'', ''C''],
      domains = [(''A'', 0), (''B'', 0), (''C'', 2)],
      neighbors = [(''A'', [''B'']), (''B'', [''A'', ''C'']), (''C'', [''B''])],
      constraints = constraint,
      lists = store_of [[2, 1, 3], [], [2, 3]]\<rparr>"

section \<open>\<^verbatim>\<open>revise\<close> only takes values out\<close>

lemma store_of_update [simp]:
  "p < length ls \<Longrightarrow> (store_of ls)(p := l) = store_of (ls[p := l])"
  by (auto simp: store_of_def fun_eq_iff)

lemma store_of_nth [simp]: "p < length ls \<Longrightarrow> store_of ls p = ls ! p"
  by (simp add: store_of_def)

lemma subseq_remove1: "subseq (remove1 x xs) xs"
  by (induction xs) auto

lemma pruned_from_refl: "pruned_from csp csp"
  by (simp add: pruned_from_def)

lemma pruned_from_trans:
  assumes "pruned_from c3 c2" and "pruned_from c2 c1"
  shows "pruned_from c3 c1"
proof -
  have "subseq (lists c3 p) (lists c1 p)" for p
  proof -
    from assms have "subseq (lists c3 p) (lists c2 p)" "subseq (lists c2 p) (lists c1 p)"
      by (simp_all add: pruned_from_def)
    then show ?thesis by (rule subseq_order.trans)
  qed
  with assms show ?thesis by (simp add: pruned_from_def)
qed

lemma pruned_from_remove1:
  "pruned_from (csp\<lparr>lists := (lists csp)(p := remove1 x (lists csp p))\<rparr>) csp"
  by (simp add: pruned_from_def subseq_remove1)

lemma revise_loop_pruned: "pruned_from (snd (revise_loop csp xi xj xs revised)) csp"
proof (induction xs arbitrary: csp revised)
  case Nil
  show ?case by (simp add: pruned_from_refl)
next
  case (Cons x xs)
  show ?case
  proof (cases "map_of (domains csp) xj")
    case None
    then show ?thesis by (simp add: pruned_from_refl)
  next
    case (Some pj)
    show ?thesis
    proof (cases "list_ex (\<lambda>y. constraints csp xi x xj y) (lists csp pj)")
      case True
      with Some Cons.IH [of csp revised] show ?thesis by simp
    next
      case False
      show ?thesis
      proof (cases "map_of (domains csp) xi")
        case None
        with Some False show ?thesis by (simp add: pruned_from_refl)
      next
        case pi: (Some pi)
        show ?thesis
        proof (cases "x \<in> set (lists csp pi)")
          case False
          with Some \<open>\<not> list_ex _ _\<close> pi show ?thesis by (simp add: pruned_from_refl)
        next
          case True
          let ?c = "csp\<lparr>lists := (lists csp)(pi := remove1 x (lists csp pi))\<rparr>"
          have "pruned_from ?c csp" by (rule pruned_from_remove1)
          with Cons.IH [of ?c True] have "pruned_from (snd (revise_loop ?c xi xj xs True)) csp"
            by (rule pruned_from_trans)
          with Some \<open>\<not> list_ex _ _\<close> pi True show ?thesis by simp
        qed
      qed
    qed
  qed
qed

lemma revise_pruned: "pruned_from (snd (revise csp xi xj)) csp"
  by (simp add: revise_def revise_loop_pruned pruned_from_refl split: option.splits)

lemma ac3_body_pruned: "pruned_from (fst (snd (ac3_body (q, csp, ret)))) csp"
proof (cases q)
  case Nil
  then show ?thesis by (simp add: pruned_from_refl)
next
  case (Cons a queue)
  obtain xi xj where a: "a = (xi, xj)" by (cases a)
  obtain r c' where r: "revise csp xi xj = (r, c')" by (cases "revise csp xi xj")
  with revise_pruned [of csp xi xj] have "pruned_from c' csp" by simp
  with Cons a r show ?thesis
    by (auto split: sum.splits bool.splits option.splits)
qed

text \<open>An invariant of the loop holds in the state in which it stops.\<close>

lemma ac3_loop_rule:
  assumes run: "ac3_loop s = Some (r, csp')"
    and init: "P s"
    and step: "\<And>s. P s \<Longrightarrow> ac3_cond s \<Longrightarrow> P (ac3_body s)"
  shows "\<exists>queue ret. P (queue, csp', ret) \<and> \<not> ac3_cond (queue, csp', ret) \<and>
           r = (case ret of None \<Rightarrow> Inr True | Some x \<Rightarrow> x)"
proof -
  from run obtain t where t: "while_option ac3_cond ac3_body s = Some t" and
    res: "ac3_result t = (r, csp')"
    by (auto simp: ac3_loop_def)
  have Pt: "P t"
    by (rule while_option_rule [where P = P, OF _ t init]) (simp add: step)
  have nc: "\<not> ac3_cond t" using t by (rule while_option_stop)
  obtain queue c ret where tt: "t = (queue, c, ret)" by (cases t)
  with res have "c = csp'" and "r = (case ret of None \<Rightarrow> Inr True | Some x \<Rightarrow> x)"
    by (auto simp: ac3_result_def split: option.splits)
  with Pt nc tt show ?thesis by blast
qed

lemma ac3_pruned:
  assumes "ac3 csp = Some (r, csp')"
  shows "pruned_from csp' csp"
proof (cases "initial_queue csp (variables csp)")
  case (Inl e)
  with assms show ?thesis by (simp add: ac3_def pruned_from_refl)
next
  case (Inr queue)
  with assms have run: "ac3_loop (queue, csp, None) = Some (r, csp')"
    by (simp add: ac3_def)
  have "\<exists>q ret. (case (q, csp', ret) of (q, c, ret) \<Rightarrow> pruned_from c csp) \<and>
          \<not> ac3_cond (q, csp', ret) \<and> r = (case ret of None \<Rightarrow> Inr True | Some x \<Rightarrow> x)"
  proof (rule ac3_loop_rule [OF run])
    show "case (queue, csp, None) of (q, c, ret) \<Rightarrow> pruned_from c csp"
      by (simp add: pruned_from_refl)
  next
    fix s :: "('a, 'b) ac3_state"
    assume P: "case s of (q, c, ret) \<Rightarrow> pruned_from c csp"
    obtain q c ret where s: "s = (q, c, ret)" by (cases s)
    obtain q' c' ret' where b: "ac3_body (q, c, ret) = (q', c', ret')"
      by (cases "ac3_body (q, c, ret)")
    from ac3_body_pruned [of q c ret] b have "pruned_from c' c" by simp
    moreover from P s have "pruned_from c csp" by simp
    ultimately have "pruned_from c' csp" by (rule pruned_from_trans)
    with s b show "case ac3_body s of (q, c, ret) \<Rightarrow> pruned_from c csp" by simp
  qed
  then show ?thesis by auto
qed

lemma pruned_from_domain_of:
  assumes "pruned_from csp' csp" and "domain_of csp' v = Some d'"
  shows "\<exists>d. domain_of csp v = Some d \<and> subseq d' d"
  using assms by (auto simp: pruned_from_def domain_of_def)

lemma example_csp_run:
  "ac3 example_csp =
     Some (Inr True, example_csp\<lparr>lists := store_of [[1, 2], [2, 3], [2, 3]]\<rparr>)"
  by (simp add: ac3_def ac3_loop_def example_csp_def while_option_unfold revise_def
        constraint_def ac3_result_def)

text \<open>
  C10.  Whatever \<^verbatim>\<open>ac3\<close> returns or raises, the instance it leaves has the same
  variables, neighbours, predicate and dictionary of domains, every list object is a
  subsequence of what it was before the call, and so the domain of every variable is a
  subsequence of the domain the variable had before the call.
\<close>

theorem ac3_only_prunes:
  assumes "ac3 csp = Some (r, csp')"
  shows "pruned_from csp' csp \<and>
    (\<forall>v d'. domain_of csp' v = Some d' \<longrightarrow> (\<exists>d. domain_of csp v = Some d \<and> subseq d' d))"
proof (intro conjI allI impI)
  show "pruned_from csp' csp" using assms by (rule ac3_pruned)
next
  fix v d'
  assume "domain_of csp' v = Some d'"
  with ac3_pruned [OF assms] show "\<exists>d. domain_of csp v = Some d \<and> subseq d' d"
    by (rule pruned_from_domain_of)
qed

theorem ac3_only_prunes_witness:
  "ac3 example_csp =
     Some (Inr True, example_csp\<lparr>lists := store_of [[1, 2], [2, 3], [2, 3]]\<rparr>) \<and>
   pruned_from (example_csp\<lparr>lists := store_of [[1, 2], [2, 3], [2, 3]]\<rparr>) example_csp \<and>
   domain_of (example_csp\<lparr>lists := store_of [[1, 2], [2, 3], [2, 3]]\<rparr>) ''B'' = Some [2, 3] \<and>
   domain_of example_csp ''B'' = Some [1, 2, 3] \<and>
   subseq [2, 3] [1, 2, 3 :: int]"
proof -
  note t = ac3_only_prunes [OF example_csp_run]
  have after: "domain_of (example_csp\<lparr>lists := store_of [[1, 2], [2, 3], [2, 3]]\<rparr>) ''B'' =
      Some [2, 3]"
    by (simp add: domain_of_def example_csp_def)
  have before: "domain_of example_csp ''B'' = Some [1, 2, 3]"
    by (simp add: domain_of_def example_csp_def)
  from t [THEN conjunct2, rule_format, OF after] before have "subseq [2, 3] [1, 2, 3 :: int]"
    by simp
  with t [THEN conjunct1] example_csp_run after before show ?thesis by simp
qed

section \<open>What \<^verbatim>\<open>revise\<close> removes\<close>

lemma csp_lists_triv: "csp\<lparr>lists := (lists csp)(p := lists csp p)\<rparr> = csp"
  by simp

lemma revise_loop_filter:
  assumes "pi \<noteq> pj"
    and "map_of (domains csp) xj = Some pj"
    and "map_of (domains csp) xi = Some pi"
    and "lists csp pi = kept @ xs"
    and "\<forall>x\<in>set kept. \<exists>y\<in>set (lists csp pj). constraints csp xi x xj y"
  shows "revise_loop csp xi xj xs revised =
     (Inr (revised \<or> (\<exists>x\<in>set xs. \<not> (\<exists>y\<in>set (lists csp pj). constraints csp xi x xj y))),
      csp\<lparr>lists := (lists csp)
        (pi := kept @ filter (\<lambda>x. \<exists>y\<in>set (lists csp pj). constraints csp xi x xj y) xs)\<rparr>)"
  using assms
proof (induction xs arbitrary: csp kept revised)
  case Nil
  from Nil.prems(4) have "kept = lists csp pi" by simp
  then show ?case by simp
next
  case (Cons x xs)
  let ?sup = "\<lambda>x. \<exists>y\<in>set (lists csp pj). constraints csp xi x xj y"
  show ?case
  proof (cases "?sup x")
    case True
    have l: "lists csp pi = (kept @ [x]) @ xs" using Cons.prems(4) by simp
    have kept: "\<forall>x\<in>set (kept @ [x]). ?sup x" using Cons.prems(5) True by simp
    from Cons.IH [OF Cons.prems(1) Cons.prems(2) Cons.prems(3) l kept, of revised]
      True Cons.prems(2)
    show ?thesis by (auto simp: list_ex_iff)
  next
    case False
    then have notin: "x \<notin> set kept" using Cons.prems(5) by blast
    let ?c = "csp\<lparr>lists := (lists csp)(pi := remove1 x (lists csp pi))\<rparr>"
    have rem: "remove1 x (lists csp pi) = kept @ xs"
      using notin Cons.prems(4) by (simp add: remove1_append)
    have inl: "x \<in> set (lists csp pi)" using Cons.prems(4) by simp
    have dj: "map_of (domains ?c) xj = Some pj" using Cons.prems(2) by simp
    have di: "map_of (domains ?c) xi = Some pi" using Cons.prems(3) by simp
    have l: "lists ?c pi = kept @ xs" using rem by simp
    have lj: "lists ?c pj = lists csp pj" using Cons.prems(1) by simp
    have kept: "\<forall>x\<in>set kept. \<exists>y\<in>set (lists ?c pj). constraints ?c xi x xj y"
      using Cons.prems(5) lj by simp
    have e1: "(\<lambda>x. \<exists>y\<in>set (lists ?c pj). constraints ?c xi x xj y) = ?sup"
      using lj by simp
    have e3: "?c\<lparr>lists := (lists ?c)(pi := Z)\<rparr> = csp\<lparr>lists := (lists csp)(pi := Z)\<rparr>" for Z
      by simp
    note ih = Cons.IH [OF Cons.prems(1) dj di l kept, of True]
    have step: "revise_loop ?c xi xj xs True =
      (Inr True, csp\<lparr>lists := (lists csp)(pi := kept @ filter ?sup xs)\<rparr>)"
      unfolding ih e1 e3 by simp
    have first: "revise_loop csp xi xj (x # xs) revised = revise_loop ?c xi xj xs True"
      using False Cons.prems(2,3) inl by (simp add: list_ex_iff)
    have f: "filter ?sup (x # xs) = filter ?sup xs" using False by simp
    have b: "(revised \<or> (\<exists>z\<in>set (x # xs). \<not> ?sup z)) = True" using False by simp
    show ?thesis unfolding first step f b by (rule refl)
  qed
qed

lemma revise_filter:
  assumes "map_of (domains csp) xi = Some pi"
    and "map_of (domains csp) xj = Some pj"
    and "pi \<noteq> pj"
  shows "revise csp xi xj =
     (Inr (\<exists>x\<in>set (lists csp pi). \<not> (\<exists>y\<in>set (lists csp pj). constraints csp xi x xj y)),
      csp\<lparr>lists := (lists csp)
        (pi := filter (\<lambda>x. \<exists>y\<in>set (lists csp pj). constraints csp xi x xj y) (lists csp pi))\<rparr>)"
  using revise_loop_filter [of pi pj csp xj xi "[]" "lists csp pi" False] assms
  by (simp add: revise_def)

lemma ac3_body_enqueue:
  assumes "revise csp xi xj = (Inr True, csp')"
    and "map_of (domains csp') xi = Some pi" and "lists csp' pi \<noteq> []"
    and "map_of (neighbors csp') xi = Some ns"
  shows "ac3_body ((xi, xj) # queue, csp, None) =
         (queue @ map (\<lambda>xk. (xk, xi)) (filter (\<lambda>xk. xk \<noteq> xj) ns), csp', None)"
  using assms by simp

lemma ac3_body_wipeout:
  assumes "revise csp xi xj = (Inr True, csp')"
    and "map_of (domains csp') xi = Some pi" and "lists csp' pi = []"
  shows "ac3_body ((xi, xj) # queue, csp, None) = (queue, csp', Some (Inr False))"
  using assms by simp

text \<open>
  C3.  The claim is that \<^verbatim>\<open>revise\<close> removes exactly the values of \<open>xi\<close> that no value of
  \<open>xj\<close> supports, and that \<^verbatim>\<open>ac3\<close> re-enqueues the arcs into \<open>xi\<close> on a removal.  It fails
  in three ways.  On the arc from A to itself with the predicate \<open>y < x\<close> and the domain
  \<open>[1,2,3]\<close>, the values 2 and 3 are supported by 1, yet \<^verbatim>\<open>revise\<close> removes 1 first and
  then finds 2 and 3 without support: the domain is left empty.  When A and B refer to
  one list object \<open>[1,2,3]\<close>, \<^verbatim>\<open>revise\<close> on the arc (B, A) of the module's predicate
  empties it, although 2 is supported by 1.  And when the removal leaves the domain of
  \<open>xi\<close> empty, \<^verbatim>\<open>ac3\<close> returns \<^verbatim>\<open>False\<close> before it enqueues anything: on the arc (B, A)
  with A = \<open>[3]\<close>, B = \<open>[1]\<close> the neighbour C of B gets no arc (C, B).
\<close>

theorem revise_counterexample:
  "revise self_arc_csp ''A'' ''A'' = (Inr True, self_arc_csp\<lparr>lists := store_of [[]]\<rparr>) \<and>
   list_ex (smaller_value ''A'' 2 ''A'') [1, 2, 3] \<and>
   revise (example_csp\<lparr>domains := [(''A'', 0), (''B'', 0), (''C'', 2)]\<rparr>) ''B'' ''A'' =
     (Inr True,
      example_csp\<lparr>domains := [(''A'', 0), (''B'', 0), (''C'', 2)],
                  lists := store_of [[], [1, 2, 3], [2, 3]]\<rparr>) \<and>
   list_ex (constraint ''B'' 2 ''A'') [1, 2, 3] \<and>
   revise (example_csp\<lparr>lists := store_of [[3], [1], [2]]\<rparr>) ''B'' ''A'' =
     (Inr True, example_csp\<lparr>lists := store_of [[3], [], [2]]\<rparr>) \<and>
   map_of (neighbors example_csp) ''B'' = Some [''A'', ''C''] \<and>
   ac3_body ((''B'', ''A'') # [], example_csp\<lparr>lists := store_of [[3], [1], [2]]\<rparr>, None) =
     ([], example_csp\<lparr>lists := store_of [[3], [], [2]]\<rparr>, Some (Inr False))"
  by (simp add: revise_def self_arc_csp_def smaller_value_def example_csp_def constraint_def)

text \<open>
  C3, amended.  When the domains of \<open>xi\<close> and \<open>xj\<close> are different list objects,
  \<^verbatim>\<open>revise\<close> leaves in the domain of \<open>xi\<close> exactly the values that some value of \<open>xj\<close>
  supports, in their order, changes no other list object, and returns whether a value was
  removed.  After a removal the loop body appends the arcs \<open>(xk, xi)\<close> for the neighbours
  \<open>xk\<close> of \<open>xi\<close> other than \<open>xj\<close>, in the order of the neighbour list, when the domain of
  \<open>xi\<close> still has a value; when it is empty the loop returns \<^verbatim>\<open>False\<close> and the worklist
  stays as it is.
\<close>

theorem revise_removes_unsupported:
  assumes "map_of (domains csp) xi = Some pi"
    and "map_of (domains csp) xj = Some pj"
    and "pi \<noteq> pj"
  shows "revise csp xi xj =
     (Inr (\<exists>x\<in>set (lists csp pi). \<not> (\<exists>y\<in>set (lists csp pj). constraints csp xi x xj y)),
      csp\<lparr>lists := (lists csp)
        (pi := filter (\<lambda>x. \<exists>y\<in>set (lists csp pj). constraints csp xi x xj y) (lists csp pi))\<rparr>) \<and>
    (\<forall>csp' ns queue.
       revise csp xi xj = (Inr True, csp') \<and> lists csp' pi \<noteq> [] \<and>
       map_of (neighbors csp') xi = Some ns \<longrightarrow>
       ac3_body ((xi, xj) # queue, csp, None) =
         (queue @ map (\<lambda>xk. (xk, xi)) (filter (\<lambda>xk. xk \<noteq> xj) ns), csp', None)) \<and>
    (\<forall>csp' queue.
       revise csp xi xj = (Inr True, csp') \<and> lists csp' pi = [] \<longrightarrow>
       ac3_body ((xi, xj) # queue, csp, None) = (queue, csp', Some (Inr False)))"
proof (intro conjI allI impI)
  show "revise csp xi xj =
     (Inr (\<exists>x\<in>set (lists csp pi). \<not> (\<exists>y\<in>set (lists csp pj). constraints csp xi x xj y)),
      csp\<lparr>lists := (lists csp)
        (pi := filter (\<lambda>x. \<exists>y\<in>set (lists csp pj). constraints csp xi x xj y) (lists csp pi))\<rparr>)"
    using assms by (rule revise_filter)
next
  fix csp' ns queue
  assume a: "revise csp xi xj = (Inr True, csp') \<and> lists csp' pi \<noteq> [] \<and>
       map_of (neighbors csp') xi = Some ns"
  from revise_pruned [of csp xi xj] a assms(1) have "map_of (domains csp') xi = Some pi"
    by (simp add: pruned_from_def)
  with a show "ac3_body ((xi, xj) # queue, csp, None) =
         (queue @ map (\<lambda>xk. (xk, xi)) (filter (\<lambda>xk. xk \<noteq> xj) ns), csp', None)"
    by (simp add: ac3_body_enqueue)
next
  fix csp' queue
  assume a: "revise csp xi xj = (Inr True, csp') \<and> lists csp' pi = []"
  from revise_pruned [of csp xi xj] a assms(1) have "map_of (domains csp') xi = Some pi"
    by (simp add: pruned_from_def)
  with a show "ac3_body ((xi, xj) # queue, csp, None) = (queue, csp', Some (Inr False))"
    by (simp add: ac3_body_wipeout)
qed

theorem revise_removes_unsupported_witness:
  "map_of (domains example_csp) ''B'' = Some 1 \<and>
   map_of (domains example_csp) ''A'' = Some 0 \<and> (1::nat) \<noteq> 0 \<and>
   revise example_csp ''B'' ''A'' =
     (Inr True, example_csp\<lparr>lists := store_of [[1, 2, 3], [2, 3], [2, 3]]\<rparr>) \<and>
   ac3_body ((''B'', ''A'') # [(''C'', ''B'')], example_csp, None) =
     ([(''C'', ''B'')] @ [(''C'', ''B'')],
      example_csp\<lparr>lists := store_of [[1, 2, 3], [2, 3], [2, 3]]\<rparr>, None)"
proof -
  have h1: "map_of (domains example_csp) ''B'' = Some 1" by (simp add: example_csp_def)
  have h2: "map_of (domains example_csp) ''A'' = Some 0" by (simp add: example_csp_def)
  have h3: "(1::nat) \<noteq> 0" by simp
  note t = revise_removes_unsupported [OF h1 h2 h3]
  from t [THEN conjunct1] have r: "revise example_csp ''B'' ''A'' =
     (Inr True, example_csp\<lparr>lists := store_of [[1, 2, 3], [2, 3], [2, 3]]\<rparr>)"
    by (simp add: example_csp_def constraint_def)
  have d: "lists (example_csp\<lparr>lists := store_of [[1, 2, 3], [2, 3], [2, 3]]\<rparr>) 1 \<noteq> []"
    by simp
  have n: "map_of (neighbors (example_csp\<lparr>lists := store_of [[1, 2, 3], [2, 3], [2, 3]]\<rparr>))
      ''B'' = Some [''A'', ''C'']"
    by (simp add: example_csp_def)
  from t [THEN conjunct2, THEN conjunct1, rule_format, of _ "[''A'', ''C'']" "[(''C'', ''B'')]"]
    r d n
  have "ac3_body ((''B'', ''A'') # [(''C'', ''B'')], example_csp, None) =
     ([(''C'', ''B'')] @ map (\<lambda>xk. (xk, ''B'')) (filter (\<lambda>xk. xk \<noteq> ''A'') [''A'', ''C'']),
      example_csp\<lparr>lists := store_of [[1, 2, 3], [2, 3], [2, 3]]\<rparr>, None)"
    by simp
  with h1 h2 r show ?thesis by simp
qed

section \<open>When \<^verbatim>\<open>ac3\<close> returns \<^verbatim>\<open>False\<close>\<close>

lemma revise_loop_False:
  "revise_loop csp xi xj xs revised = (Inr False, csp') \<Longrightarrow> csp' = csp \<and> \<not> revised"
proof (induction xs arbitrary: csp revised)
  case Nil
  then show ?case by simp
next
  case (Cons x xs)
  show ?case
  proof (cases "map_of (domains csp) xj")
    case None
    with Cons.prems show ?thesis by simp
  next
    case (Some pj)
    show ?thesis
    proof (cases "list_ex (\<lambda>y. constraints csp xi x xj y) (lists csp pj)")
      case True
      with Some Cons.prems have "revise_loop csp xi xj xs revised = (Inr False, csp')" by simp
      then show ?thesis by (rule Cons.IH)
    next
      case False
      show ?thesis
      proof (cases "map_of (domains csp) xi")
        case None
        with Some False Cons.prems show ?thesis by simp
      next
        case pi: (Some pi)
        show ?thesis
        proof (cases "x \<in> set (lists csp pi)")
          case False
          with Some \<open>\<not> list_ex _ _\<close> pi Cons.prems show ?thesis by simp
        next
          case True
          let ?c = "csp\<lparr>lists := (lists csp)(pi := remove1 x (lists csp pi))\<rparr>"
          from Some \<open>\<not> list_ex _ _\<close> pi True Cons.prems
          have "revise_loop ?c xi xj xs True = (Inr False, csp')" by simp
          from Cons.IH [OF this] show ?thesis by simp
        qed
      qed
    qed
  qed
qed

lemma revise_False: "revise csp xi xj = (Inr False, csp') \<Longrightarrow> csp' = csp"
  by (auto simp: revise_def split: option.splits dest: revise_loop_False)

lemma revise_True_nonempty:
  assumes "revise csp xi xj = (Inr True, csp')"
  shows "\<exists>pi. map_of (domains csp) xi = Some pi \<and> lists csp pi \<noteq> []"
proof (cases "map_of (domains csp) xi")
  case None
  with assms show ?thesis by (simp add: revise_def)
next
  case (Some pi)
  with assms have "revise_loop csp xi xj (lists csp pi) False = (Inr True, csp')"
    by (simp add: revise_def)
  then have "lists csp pi \<noteq> []" by auto
  with Some show ?thesis by simp
qed

lemma revise_loop_other:
  "map_of (domains csp) xi = Some pi \<Longrightarrow> p \<noteq> pi \<Longrightarrow>
   lists (snd (revise_loop csp xi xj xs revised)) p = lists csp p"
proof (induction xs arbitrary: csp revised)
  case Nil
  show ?case by simp
next
  case (Cons x xs)
  show ?case
  proof (cases "map_of (domains csp) xj")
    case None
    then show ?thesis by simp
  next
    case (Some pj)
    show ?thesis
    proof (cases "list_ex (\<lambda>y. constraints csp xi x xj y) (lists csp pj)")
      case True
      with Some Cons.IH [OF Cons.prems, of revised] show ?thesis by simp
    next
      case False
      show ?thesis
      proof (cases "x \<in> set (lists csp pi)")
        case False
        with Some \<open>\<not> list_ex _ _\<close> Cons.prems(1) show ?thesis by simp
      next
        case True
        let ?c = "csp\<lparr>lists := (lists csp)(pi := remove1 x (lists csp pi))\<rparr>"
        have d: "map_of (domains ?c) xi = Some pi" using Cons.prems(1) by simp
        from Cons.IH [OF d Cons.prems(2), of True] Cons.prems(2)
        have "lists (snd (revise_loop ?c xi xj xs True)) p = lists csp p" by simp
        with Some \<open>\<not> list_ex _ _\<close> Cons.prems(1) True show ?thesis by simp
      qed
    qed
  qed
qed

lemma revise_other:
  "map_of (domains csp) xi = Some pi \<Longrightarrow> p \<noteq> pi \<Longrightarrow>
   lists (snd (revise csp xi xj)) p = lists csp p"
  by (simp add: revise_def revise_loop_other)

lemma ac3_loop_step: "ac3_cond s \<Longrightarrow> ac3_loop s = ac3_loop (ac3_body s)"
  unfolding ac3_loop_def by (subst while_option_unfold) simp

lemma ac3_loop_stop: "\<not> ac3_cond s \<Longrightarrow> ac3_loop s = Some (ac3_result s)"
  unfolding ac3_loop_def by (subst while_option_unfold) simp

lemma ac3_loop_empty: "ac3_loop ([], csp, None) = Some (Inr True, csp)"
  by (simp add: ac3_loop_stop ac3_result_def)

lemma ac3_loop_returned: "ac3_loop (queue, csp, Some r) = Some (r, csp)"
  by (simp add: ac3_loop_stop ac3_result_def)

lemma ac3_loop_wipeout:
  assumes "revise csp xi xj = (Inr True, csp')"
    and "map_of (domains csp') xi = Some pi" and "lists csp' pi = []"
  shows "ac3_loop ((xi, xj) # queue, csp, None) = Some (Inr False, csp')"
proof -
  have "ac3_loop ((xi, xj) # queue, csp, None) = ac3_loop (ac3_body ((xi, xj) # queue, csp, None))"
    by (rule ac3_loop_step) simp
  also have "\<dots> = ac3_loop (queue, csp', Some (Inr False))"
    by (simp only: ac3_body_wipeout [OF assms])
  finally show ?thesis by (simp add: ac3_loop_returned)
qed

lemma ac3_loop_raises:
  assumes "revise csp xi xj = (Inl e, csp')"
  shows "ac3_loop ((xi, xj) # queue, csp, None) = Some (Inl e, csp')"
proof -
  have "ac3_loop ((xi, xj) # queue, csp, None) = ac3_loop (ac3_body ((xi, xj) # queue, csp, None))"
    by (rule ac3_loop_step) simp
  also have "\<dots> = ac3_loop (queue, csp', Some (Inl e))" using assms by simp
  finally show ?thesis by (simp add: ac3_loop_returned)
qed

lemma ac3_loop_unchanged:
  assumes "revise csp xi xj = (Inr False, csp')"
  shows "ac3_loop ((xi, xj) # queue, csp, None) = ac3_loop (queue, csp', None)"
proof -
  have "ac3_loop ((xi, xj) # queue, csp, None) = ac3_loop (ac3_body ((xi, xj) # queue, csp, None))"
    by (rule ac3_loop_step) simp
  also have "\<dots> = ac3_loop (queue, csp', None)" using assms by simp
  finally show ?thesis .
qed

lemma ac3_loop_enqueue:
  assumes "revise csp xi xj = (Inr True, csp')"
    and "map_of (domains csp') xi = Some pi" and "lists csp' pi \<noteq> []"
    and "map_of (neighbors csp') xi = Some ns"
  shows "ac3_loop ((xi, xj) # queue, csp, None) =
         ac3_loop (queue @ map (\<lambda>xk. (xk, xi)) (filter (\<lambda>xk. xk \<noteq> xj) ns), csp', None)"
proof -
  have "ac3_loop ((xi, xj) # queue, csp, None) = ac3_loop (ac3_body ((xi, xj) # queue, csp, None))"
    by (rule ac3_loop_step) simp
  also have "\<dots> = ac3_loop (queue @ map (\<lambda>xk. (xk, xi)) (filter (\<lambda>xk. xk \<noteq> xj) ns), csp', None)"
    by (simp only: ac3_body_enqueue [OF assms])
  finally show ?thesis .
qed

lemma ac3_inv_step:
  assumes inv: "ac3_inv csp s" and cond: "ac3_cond s"
  shows "ac3_inv csp (ac3_body s)"
proof -
  obtain q c ret where s: "s = (q, c, ret)" by (cases s)
  from cond s obtain xi xj rest where q: "q = (xi, xj) # rest" and ret: "ret = None"
    by (cases q) auto
  from inv s ret have pc: "pruned_from c csp" and nl: "no_domain_emptied csp c"
    by (simp_all add: ac3_inv_def)
  obtain r c' where r: "revise c xi xj = (r, c')" by (cases "revise c xi xj")
  from revise_pruned [of c xi xj] r have pcc: "pruned_from c' c" by simp
  then have pc': "pruned_from c' csp" using pc by (rule pruned_from_trans)
  from pcc have dom': "domains c' = domains c" by (simp add: pruned_from_def)
  from pc have dom0: "domains c = domains csp" by (simp add: pruned_from_def)
  show ?thesis
  proof (cases r)
    case (Inl e)
    with s q ret r pc' show ?thesis by (simp add: ac3_inv_def)
  next
    case (Inr b)
    show ?thesis
    proof (cases b)
      case False
      with Inr r have "c' = c" by (auto dest: revise_False)
      with s q ret r Inr False pc nl show ?thesis by (simp add: ac3_inv_def)
    next
      case True
      with Inr r have rt: "revise c xi xj = (Inr True, c')" by simp
      then obtain pi where pi: "map_of (domains c) xi = Some pi" and ne: "lists c pi \<noteq> []"
        by (auto dest: revise_True_nonempty)
      from pc have "subseq (lists c pi) (lists csp pi)" by (simp add: pruned_from_def)
      with ne have ne0: "lists csp pi \<noteq> []" by auto
      have other: "lists c' p = lists c p" if "p \<noteq> pi" for p
        using revise_other [OF pi that, of xj] r by simp
      from pi dom' have pi': "map_of (domains c') xi = Some pi" by simp
      show ?thesis
      proof (cases "lists c' pi = []")
        case True
        from pi dom0 ne0 have "domain_of csp xi = Some (lists csp pi)"
          by (simp add: domain_of_def)
        moreover from pi' True have "domain_of c' xi = Some []" by (simp add: domain_of_def)
        ultimately have "\<not> no_domain_emptied csp c'"
          using ne0 by (auto simp: no_domain_emptied_def)
        with s q ret rt pc' pi' True show ?thesis by (simp add: ac3_inv_def)
      next
        case False
        have nl': "no_domain_emptied csp c'"
          unfolding no_domain_emptied_def
        proof (intro allI impI)
          fix v d
          assume a: "domain_of csp v = Some d \<and> d \<noteq> []"
          then obtain p where p: "map_of (domains csp) v = Some p" and d: "d = lists csp p"
            by (auto simp: domain_of_def)
          from p dom0 dom' have p': "map_of (domains c') v = Some p" "map_of (domains c) v = Some p"
            by simp_all
          show "domain_of c' v \<noteq> Some []"
          proof (cases "p = pi")
            case True
            with p' False show ?thesis by (simp add: domain_of_def)
          next
            case ne: False
            from nl a have "domain_of c v \<noteq> Some []"
              by (simp add: no_domain_emptied_def)
            with p' other [OF ne] show ?thesis by (simp add: domain_of_def)
          qed
        qed
        with s q ret rt pc' pi' False show ?thesis
          by (simp add: ac3_inv_def split: option.splits)
      qed
    qed
  qed
qed

lemma ac3_true_iff:
  assumes "ac3 csp = Some (Inr b, csp')"
  shows "b \<longleftrightarrow> no_domain_emptied csp csp'"
proof (cases "initial_queue csp (variables csp)")
  case (Inl e)
  with assms show ?thesis by (simp add: ac3_def)
next
  case (Inr queue)
  with assms have run: "ac3_loop (queue, csp, None) = Some (Inr b, csp')"
    by (simp add: ac3_def)
  have init: "ac3_inv csp (queue, csp, None)"
    by (simp add: ac3_inv_def pruned_from_refl no_domain_emptied_def)
  from ac3_loop_rule [OF run, where P = "ac3_inv csp", OF init ac3_inv_step]
  obtain q ret where inv: "ac3_inv csp (q, csp', ret)" and
    res: "Inr b = (case ret of None \<Rightarrow> Inr True | Some x \<Rightarrow> x)"
    by blast
  show ?thesis
  proof (cases ret)
    case None
    with inv res show ?thesis by (simp add: ac3_inv_def)
  next
    case (Some x)
    with res have "x = Inr b" by simp
    with Some inv show ?thesis by (auto simp: ac3_inv_def)
  qed
qed

lemma wipeout_run:
  "ac3 (example_csp\<lparr>lists := store_of [[3], [1], [2]]\<rparr>) =
     Some (Inr False, example_csp\<lparr>lists := store_of [[], [1], [2]]\<rparr>)"
  by (simp add: ac3_def ac3_loop_def example_csp_def while_option_unfold revise_def
        constraint_def ac3_result_def)

lemma wipeout_second_run:
  "ac3 (example_csp\<lparr>lists := store_of [[], [1], [2]]\<rparr>) =
     Some (Inr False, example_csp\<lparr>lists := store_of [[], [], [2]]\<rparr>)"
  by (simp add: ac3_def ac3_loop_def example_csp_def while_option_unfold revise_def
        constraint_def ac3_result_def)

text \<open>
  C4.  \<^verbatim>\<open>ac3\<close> is the worklist loop started on the initial worklist.  With an empty
  worklist the loop returns \<^verbatim>\<open>True\<close>.  With an arc at the head of the worklist: if the
  revision removes a value and leaves the domain empty, the loop returns \<^verbatim>\<open>False\<close> with
  the instance as that revision left it, whatever the rest of the worklist is; if it
  removes a value and the domain still has one, the loop goes on with the rest of the
  worklist followed by the arcs into \<open>xi\<close>; if it removes nothing, the loop goes on with
  the rest of the worklist; if it raises, so does the loop.  And when \<^verbatim>\<open>ac3\<close> returns a
  boolean, it is \<^verbatim>\<open>True\<close> exactly when no domain that had a value has been emptied.
\<close>

theorem ac3_stops_on_empty_domain:
  "ac3 csp =
     (case initial_queue csp (variables csp) of
        Inl e \<Rightarrow> Some (Inl e, csp)
      | Inr queue \<Rightarrow> ac3_loop (queue, csp, None)) \<and>
   ac3_loop ([], csp, None) = Some (Inr True, csp) \<and>
   (\<forall>xi xj queue csp' pi.
      revise csp xi xj = (Inr True, csp') \<and> map_of (domains csp') xi = Some pi \<and>
      lists csp' pi = [] \<longrightarrow>
      ac3_loop ((xi, xj) # queue, csp, None) = Some (Inr False, csp')) \<and>
   (\<forall>xi xj queue csp' pi ns.
      revise csp xi xj = (Inr True, csp') \<and> map_of (domains csp') xi = Some pi \<and>
      lists csp' pi \<noteq> [] \<and> map_of (neighbors csp') xi = Some ns \<longrightarrow>
      ac3_loop ((xi, xj) # queue, csp, None) =
      ac3_loop (queue @ map (\<lambda>xk. (xk, xi)) (filter (\<lambda>xk. xk \<noteq> xj) ns), csp', None)) \<and>
   (\<forall>xi xj queue csp'.
      revise csp xi xj = (Inr False, csp') \<longrightarrow>
      ac3_loop ((xi, xj) # queue, csp, None) = ac3_loop (queue, csp', None)) \<and>
   (\<forall>xi xj queue csp' e.
      revise csp xi xj = (Inl e, csp') \<longrightarrow>
      ac3_loop ((xi, xj) # queue, csp, None) = Some (Inl e, csp')) \<and>
   (\<forall>b csp'. ac3 csp = Some (Inr b, csp') \<longrightarrow> (b \<longleftrightarrow> no_domain_emptied csp csp'))"
proof (intro conjI allI impI)
  show "ac3 csp =
     (case initial_queue csp (variables csp) of
        Inl e \<Rightarrow> Some (Inl e, csp)
      | Inr queue \<Rightarrow> ac3_loop (queue, csp, None))"
    by (simp add: ac3_def)
next
  show "ac3_loop ([], csp, None) = Some (Inr True, csp)" by (rule ac3_loop_empty)
next
  fix xi xj queue csp' pi
  assume "revise csp xi xj = (Inr True, csp') \<and> map_of (domains csp') xi = Some pi \<and>
      lists csp' pi = []"
  then show "ac3_loop ((xi, xj) # queue, csp, None) = Some (Inr False, csp')"
    by (simp add: ac3_loop_wipeout)
next
  fix xi xj queue csp' pi ns
  assume "revise csp xi xj = (Inr True, csp') \<and> map_of (domains csp') xi = Some pi \<and>
      lists csp' pi \<noteq> [] \<and> map_of (neighbors csp') xi = Some ns"
  then show "ac3_loop ((xi, xj) # queue, csp, None) =
      ac3_loop (queue @ map (\<lambda>xk. (xk, xi)) (filter (\<lambda>xk. xk \<noteq> xj) ns), csp', None)"
    by (simp add: ac3_loop_enqueue)
next
  fix xi xj queue csp'
  assume "revise csp xi xj = (Inr False, csp')"
  then show "ac3_loop ((xi, xj) # queue, csp, None) = ac3_loop (queue, csp', None)"
    by (rule ac3_loop_unchanged)
next
  fix xi xj queue csp' e
  assume "revise csp xi xj = (Inl e, csp')"
  then show "ac3_loop ((xi, xj) # queue, csp, None) = Some (Inl e, csp')"
    by (rule ac3_loop_raises)
next
  fix b csp'
  assume "ac3 csp = Some (Inr b, csp')"
  then show "b \<longleftrightarrow> no_domain_emptied csp csp'" by (rule ac3_true_iff)
qed

theorem ac3_stops_on_empty_domain_witness:
  "ac3 (example_csp\<lparr>lists := store_of [[3], [1], [2]]\<rparr>) =
     Some (Inr False, example_csp\<lparr>lists := store_of [[], [1], [2]]\<rparr>) \<and>
   \<not> no_domain_emptied
     (example_csp\<lparr>lists := store_of [[3], [1], [2]]\<rparr>)
     (example_csp\<lparr>lists := store_of [[], [1], [2]]\<rparr>) \<and>
   ac3_loop ((''A'', ''B'') # [(''B'', ''A''), (''B'', ''C''), (''C'', ''B'')], example_csp, None) =
   ac3_loop ([(''B'', ''A''), (''B'', ''C''), (''C'', ''B'')] @ [],
             example_csp\<lparr>lists := store_of [[1, 2], [1, 2, 3], [2, 3]]\<rparr>, None) \<and>
   ac3_loop ((''C'', ''B'') # [], example_csp, None) = ac3_loop ([], example_csp, None) \<and>
   ac3 example_csp =
     Some (Inr True, example_csp\<lparr>lists := store_of [[1, 2], [2, 3], [2, 3]]\<rparr>) \<and>
   no_domain_emptied example_csp (example_csp\<lparr>lists := store_of [[1, 2], [2, 3], [2, 3]]\<rparr>)"
proof -
  let ?c0 = "example_csp\<lparr>lists := store_of [[3], [1], [2]]\<rparr>"
  let ?c1 = "example_csp\<lparr>lists := store_of [[], [1], [2]]\<rparr>"
  let ?e1 = "example_csp\<lparr>lists := store_of [[1, 2], [1, 2, 3], [2, 3]]\<rparr>"
  let ?e2 = "example_csp\<lparr>lists := store_of [[1, 2], [2, 3], [2, 3]]\<rparr>"
  note t0 = ac3_stops_on_empty_domain [of ?c0]
  note te = ac3_stops_on_empty_domain [of example_csp]
  have q0: "initial_queue ?c0 (variables ?c0) =
      Inr [(''A'', ''B''), (''B'', ''A''), (''B'', ''C''), (''C'', ''B'')]"
    by (simp add: example_csp_def)
  have r0: "revise ?c0 ''A'' ''B'' = (Inr True, ?c1)"
    by (simp add: revise_def example_csp_def constraint_def)
  have d0: "map_of (domains ?c1) ''A'' = Some 0" by (simp add: example_csp_def)
  have l0: "lists ?c1 0 = []" by simp
  from t0 [THEN conjunct2, THEN conjunct2, THEN conjunct1, rule_format,
      of "''A''" "''B''" ?c1 0 "[(''B'', ''A''), (''B'', ''C''), (''C'', ''B'')]"] r0 d0 l0
  have w: "ac3_loop ((''A'', ''B'') # [(''B'', ''A''), (''B'', ''C''), (''C'', ''B'')], ?c0, None) =
      Some (Inr False, ?c1)"
    by simp
  from t0 [THEN conjunct1] q0 w have a0: "ac3 ?c0 = Some (Inr False, ?c1)" by simp
  from t0 [THEN conjunct2, THEN conjunct2, THEN conjunct2, THEN conjunct2, THEN conjunct2,
      THEN conjunct2, rule_format, OF a0]
  have n0: "\<not> no_domain_emptied ?c0 ?c1" by simp
  have r1: "revise example_csp ''A'' ''B'' = (Inr True, ?e1)"
    by (simp add: revise_def example_csp_def constraint_def)
  have d1: "map_of (domains ?e1) ''A'' = Some 0" by (simp add: example_csp_def)
  have l1: "lists ?e1 0 \<noteq> []" by simp
  have n1: "map_of (neighbors ?e1) ''A'' = Some [''B'']" by (simp add: example_csp_def)
  from te [THEN conjunct2, THEN conjunct2, THEN conjunct2, THEN conjunct1, rule_format,
      of "''A''" "''B''" ?e1 0 "[''B'']" "[(''B'', ''A''), (''B'', ''C''), (''C'', ''B'')]"]
    r1 d1 l1 n1
  have s1: "ac3_loop ((''A'', ''B'') # [(''B'', ''A''), (''B'', ''C''), (''C'', ''B'')],
        example_csp, None) =
      ac3_loop ([(''B'', ''A''), (''B'', ''C''), (''C'', ''B'')] @ [], ?e1, None)"
    by simp
  have r2: "revise example_csp ''C'' ''B'' = (Inr False, example_csp)"
    by (simp add: revise_def example_csp_def constraint_def)
  from te [THEN conjunct2, THEN conjunct2, THEN conjunct2, THEN conjunct2, THEN conjunct1,
      rule_format, OF r2, of "[]"]
  have s2: "ac3_loop ((''C'', ''B'') # [], example_csp, None) = ac3_loop ([], example_csp, None)" .
  from te [THEN conjunct2, THEN conjunct2, THEN conjunct2, THEN conjunct2, THEN conjunct2,
      THEN conjunct2, rule_format, OF example_csp_run]
  have n2: "no_domain_emptied example_csp ?e2" by simp
  from a0 n0 s1 s2 example_csp_run n2 show ?thesis by (intro conjI)
qed

subsection \<open>Termination\<close>

section \<open>Termination of \<^verbatim>\<open>ac3\<close>\<close>











section \<open>Running \<^verbatim>\<open>ac3\<close> again\<close>

lemma revise_loop_supported:
  assumes "\<forall>x\<in>set xs. \<exists>pj. map_of (domains csp) xj = Some pj \<and>
             (\<exists>y\<in>set (lists csp pj). constraints csp xi x xj y)"
  shows "revise_loop csp xi xj xs revised = (Inr revised, csp)"
  using assms by (induction xs) (auto simp: list_ex_iff)

lemma supported_arc_revise:
  "supported_arc csp xi xj \<Longrightarrow> revise csp xi xj = (Inr False, csp)"
  by (auto simp: supported_arc_def revise_def revise_loop_supported)

lemma revise_loop_False_supported:
  "revise_loop csp xi xj xs revised = (Inr False, csp') \<Longrightarrow>
   \<forall>x\<in>set xs. \<exists>pj. map_of (domains csp) xj = Some pj \<and>
      (\<exists>y\<in>set (lists csp pj). constraints csp xi x xj y)"
proof (induction xs arbitrary: revised)
  case Nil
  show ?case by simp
next
  case (Cons x xs)
  show ?case
  proof (cases "map_of (domains csp) xj")
    case None
    with Cons.prems show ?thesis by simp
  next
    case (Some pj)
    show ?thesis
    proof (cases "list_ex (\<lambda>y. constraints csp xi x xj y) (lists csp pj)")
      case True
      with Some Cons.prems have "revise_loop csp xi xj xs revised = (Inr False, csp')" by simp
      from Cons.IH [OF this] True Some show ?thesis by (auto simp: list_ex_iff)
    next
      case False
      show ?thesis
      proof (cases "map_of (domains csp) xi")
        case None
        with Some False Cons.prems show ?thesis by simp
      next
        case pi: (Some pi)
        show ?thesis
        proof (cases "x \<in> set (lists csp pi)")
          case False
          with Some \<open>\<not> list_ex _ _\<close> pi Cons.prems show ?thesis by simp
        next
          case True
          let ?c = "csp\<lparr>lists := (lists csp)(pi := remove1 x (lists csp pi))\<rparr>"
          from Some \<open>\<not> list_ex _ _\<close> pi True Cons.prems
          have "revise_loop ?c xi xj xs True = (Inr False, csp')" by simp
          from revise_loop_False [OF this] show ?thesis by simp
        qed
      qed
    qed
  qed
qed

lemma revise_False_supported:
  assumes "revise csp xi xj = (Inr False, csp')"
  shows "supported_arc csp xi xj"
proof (cases "map_of (domains csp) xi")
  case None
  with assms show ?thesis by (simp add: revise_def)
next
  case (Some pi)
  with assms have "revise_loop csp xi xj (lists csp pi) False = (Inr False, csp')"
    by (simp add: revise_def)
  from revise_loop_False_supported [OF this] Some show ?thesis
    by (simp add: supported_arc_def)
qed

lemma revise_True_other_domain:
  assumes "revise csp xi xj = (Inr True, csp')"
  shows "\<exists>pj. map_of (domains csp) xj = Some pj"
proof (rule ccontr)
  assume "\<not> ?thesis"
  then have n: "map_of (domains csp) xj = None" by simp
  from assms obtain xs where "revise_loop csp xi xj xs False = (Inr True, csp')"
    by (auto simp: revise_def split: option.splits)
  with n show False by (cases xs) simp_all
qed

lemma revise_loop_self:
  assumes sym: "\<forall>x y. constraints csp xi x xi y = constraints csp xi y xi x"
    and p: "map_of (domains csp) xi = Some p"
    and l: "lists csp p = kept @ xs"
    and kept: "\<forall>v\<in>set kept. \<exists>w\<in>set (kept @ xs). constraints csp xi v xi w"
  shows "\<forall>v\<in>set (lists (snd (revise_loop csp xi xi xs revised)) p).
           \<exists>w\<in>set (lists (snd (revise_loop csp xi xi xs revised)) p). constraints csp xi v xi w"
  using sym p l kept
proof (induction xs arbitrary: csp kept revised)
  case Nil
  then show ?case by simp
next
  case (Cons x xs)
  let ?sup = "\<exists>y\<in>set (kept @ x # xs). constraints csp xi x xi y"
  show ?case
  proof (cases ?sup)
    case True
    have l': "lists csp p = (kept @ [x]) @ xs" using Cons.prems(3) by simp
    have k': "\<forall>v\<in>set (kept @ [x]). \<exists>w\<in>set ((kept @ [x]) @ xs). constraints csp xi v xi w"
      using Cons.prems(4) True by simp
    from Cons.IH [OF Cons.prems(1) Cons.prems(2) l' k', of revised]
      True Cons.prems(2,3)
    show ?thesis by (simp add: list_ex_iff)
  next
    case False
    then have notin: "x \<notin> set kept" using Cons.prems(4) by auto
    let ?c = "csp\<lparr>lists := (lists csp)(p := remove1 x (lists csp p))\<rparr>"
    have rem: "remove1 x (lists csp p) = kept @ xs"
      using notin Cons.prems(3) by (simp add: remove1_append)
    have inl: "x \<in> set (lists csp p)" using Cons.prems(3) by simp
    have sym': "\<forall>x y. constraints ?c xi x xi y = constraints ?c xi y xi x"
      using Cons.prems(1) by simp
    have p': "map_of (domains ?c) xi = Some p" using Cons.prems(2) by simp
    have l': "lists ?c p = kept @ xs" using rem by simp
    have k': "\<forall>v\<in>set kept. \<exists>w\<in>set (kept @ xs). constraints ?c xi v xi w"
    proof
      fix v assume v: "v \<in> set kept"
      with Cons.prems(4) obtain w where w: "w \<in> set (kept @ x # xs)" "constraints csp xi v xi w"
        by blast
      have "w \<noteq> x"
      proof
        assume "w = x"
        with w(2) Cons.prems(1) have "constraints csp xi x xi v" by simp
        with v False show False by auto
      qed
      with w show "\<exists>w\<in>set (kept @ xs). constraints ?c xi v xi w" by auto
    qed
    have first: "revise_loop csp xi xi (x # xs) revised = revise_loop ?c xi xi xs True"
      using False Cons.prems(2,3) inl by (simp add: list_ex_iff)
    from Cons.IH [OF sym' p' l' k', of True] show ?thesis
      unfolding first by simp
  qed
qed

lemma revise_self_supported:
  assumes sym: "\<forall>x y. constraints csp xi x xi y = constraints csp xi y xi x"
    and p: "map_of (domains csp) xi = Some p"
  shows "supported_arc (snd (revise csp xi xi)) xi xi"
proof -
  let ?c' = "snd (revise csp xi xi)"
  from revise_pruned [of csp xi xi] have d: "domains ?c' = domains csp"
    and c: "constraints ?c' = constraints csp"
    by (simp_all add: pruned_from_def)
  have r: "revise csp xi xi = revise_loop csp xi xi (lists csp p) False"
    using p by (simp add: revise_def)
  from revise_loop_self [OF sym p, of "[]" "lists csp p" False]
  have "\<forall>v\<in>set (lists ?c' p). \<exists>w\<in>set (lists ?c' p). constraints csp xi v xi w"
    unfolding r by simp
  with d c p show ?thesis by (auto simp: supported_arc_def)
qed

lemma initial_queue_set:
  "initial_queue csp vars = Inr q \<Longrightarrow>
   set q = {(a, b). a \<in> set vars \<and> (\<exists>ns. map_of (neighbors csp) a = Some ns \<and> b \<in> set ns)}"
proof (induction vars arbitrary: q)
  case Nil
  then show ?case by simp
next
  case (Cons v vars)
  from Cons.prems obtain ns q' where ns: "map_of (neighbors csp) v = Some ns" and
    q': "initial_queue csp vars = Inr q'" and q: "q = map (\<lambda>xj. (v, xj)) ns @ q'"
    by (auto split: option.splits sum.splits)
  from Cons.IH [OF q'] ns q show ?case by auto
qed

lemma initial_queue_cong:
  "neighbors csp' = neighbors csp \<Longrightarrow> initial_queue csp' vars = initial_queue csp vars"
  by (induction vars) (simp_all cong: option.case_cong sum.case_cong)

lemma ac3_loop_supported:
  assumes "\<forall>a\<in>set q. supported_arc csp (fst a) (snd a)"
  shows "ac3_loop (q, csp, None) = Some (Inr True, csp)"
  using assms
proof (induction q)
  case Nil
  show ?case by (rule ac3_loop_empty)
next
  case (Cons a q)
  obtain xi xj where a: "a = (xi, xj)" by (cases a)
  with Cons.prems have "revise csp xi xj = (Inr False, csp)"
    by (simp add: supported_arc_revise)
  from ac3_loop_unchanged [OF this, of q] Cons a show ?case by simp
qed

lemma subseq_subset: "subseq xs ys \<Longrightarrow> x \<in> set xs \<Longrightarrow> x \<in> set ys"
  by (auto elim: list_emb_set)

lemma supported_arc_shrunk:
  assumes sup: "supported_arc c u v"
    and dom: "domains c' = domains c" and cs: "constraints c' = constraints c"
    and sub: "\<And>p. subseq (lists c' p) (lists c p)"
    and keep: "\<And>pv. map_of (domains c) v = Some pv \<Longrightarrow> lists c' pv = lists c pv"
  shows "supported_arc c' u v"
proof -
  from sup obtain pu where pu: "map_of (domains c) u = Some pu"
    and s: "\<forall>x\<in>set (lists c pu). \<exists>pv. map_of (domains c) v = Some pv \<and>
           (\<exists>y\<in>set (lists c pv). constraints c u x v y)"
    by (auto simp: supported_arc_def)
  have "\<exists>pv. map_of (domains c') v = Some pv \<and> (\<exists>y\<in>set (lists c' pv). constraints c' u x v y)"
    if x: "x \<in> set (lists c' pu)" for x
  proof -
    from sub [of pu] x have "x \<in> set (lists c pu)" by (rule subseq_subset)
    with s obtain pv y where pv: "map_of (domains c) v = Some pv"
      and y: "y \<in> set (lists c pv)" "constraints c u x v y"
      by blast
    from keep [OF pv] y dom cs pv show ?thesis by auto
  qed
  with pu dom show ?thesis by (auto simp: supported_arc_def)
qed

lemma ac3_arcs_inv_step:
  assumes symn: "symmetric_neighbors csp" and symp: "symmetric_predicate csp"
    and own: "own_lists csp"
    and inv: "ac3_arcs_inv csp s" and cond: "ac3_cond s"
  shows "ac3_arcs_inv csp (ac3_body s)"
proof -
  obtain q c ret where s: "s = (q, c, ret)" by (cases s)
  from cond s obtain xi xj rest where q: "q = (xi, xj) # rest" and ret: "ret = None"
    by (cases q) auto
  from inv s ret q have pc: "pruned_from c csp"
    and np: "\<forall>a\<in>set rest. neighbor_pair csp a" and npx: "neighbor_pair csp (xi, xj)"
    and arcs0: "\<forall>a. is_arc csp a \<longrightarrow>
          a \<in> set ((xi, xj) # rest) \<or> supported_arc c (fst a) (snd a)"
    by (simp_all add: ac3_arcs_inv_def)
  have arcs: "a = (xi, xj) \<or> a \<in> set rest \<or> supported_arc c (fst a) (snd a)"
    if "is_arc csp a" for a
    using arcs0 that by (simp only: set_simps insert_iff) blast
  from pc have nb: "neighbors c = neighbors csp" and cs: "constraints c = constraints csp"
    and dm: "domains c = domains csp"
    by (simp_all add: pruned_from_def)
  obtain r c' where r: "revise c xi xj = (r, c')" by (cases "revise c xi xj")
  from revise_pruned [of c xi xj] r have pcc: "pruned_from c' c" by simp
  then have pc': "pruned_from c' csp" using pc by (rule pruned_from_trans)
  from pcc have nb': "neighbors c' = neighbors c" and dm': "domains c' = domains c"
    and cs': "constraints c' = constraints c"
    and sub: "\<And>p. subseq (lists c' p) (lists c p)"
    by (simp_all add: pruned_from_def)
  from symp have "neighbor_pair csp (xi, xj) \<longrightarrow>
      (\<forall>x y. constraints csp (fst (xi, xj)) x (snd (xi, xj)) y =
         constraints csp (snd (xi, xj)) y (fst (xi, xj)) x)"
    unfolding symmetric_predicate_def by (rule spec)
  with npx have "\<forall>x y. constraints csp xi x xj y = constraints csp xj y xi x"
    by simp
  with cs have sym: "\<And>x y. constraints c xi x xj y = constraints c xj y xi x"
    by simp
  show ?thesis
  proof (cases r)
    case (Inl e)
    with s q ret r pc' np show ?thesis by (simp add: ac3_arcs_inv_def)
  next
    case (Inr b)
    show ?thesis
    proof (cases b)
      case False
      with Inr r have rf: "revise c xi xj = (Inr False, c')" by simp
      then have same: "c' = c" by (rule revise_False)
      from rf have "supported_arc c xi xj" by (rule revise_False_supported)
      with arcs have "\<And>a. is_arc csp a \<Longrightarrow> a \<in> set rest \<or> supported_arc c (fst a) (snd a)"
        by fastforce
      then have "\<forall>a. is_arc csp a \<longrightarrow> a \<in> set rest \<or> supported_arc c (fst a) (snd a)"
        by blast
      with s q ret rf same pc np show ?thesis by (simp add: ac3_arcs_inv_def)
    next
      case True
      with Inr r have rt: "revise c xi xj = (Inr True, c')" by simp
      from revise_True_nonempty [OF rt] obtain pi where pi: "map_of (domains c) xi = Some pi"
        by blast
      from revise_True_other_domain [OF rt] obtain pj where pj: "map_of (domains c) xj = Some pj"
        by blast
      have other: "lists c' p = lists c p" if "p \<noteq> pi" for p
        using revise_other [OF pi that, of xj] r by simp
      have keep: "lists c' pv = lists c pv" if "v \<noteq> xi" "map_of (domains c) v = Some pv" for v pv
      proof -
        from own that(2) pi dm have "pv = pi \<longrightarrow> v = xi" by (auto simp: own_lists_def)
        with that(1) have "pv \<noteq> pi" by blast
        then show ?thesis by (rule other)
      qed
      have dxi: "map_of (domains c') xi = Some pi" using pi dm' by simp
      have popped: "supported_arc c' xi xj"
      proof (cases "xi = xj")
        case True
        from sym True have "\<forall>x y. constraints c xi x xi y = constraints c xi y xi x" by simp
        from revise_self_supported [OF this pi] r True show ?thesis by simp
      next
        case False
        from keep [OF _ pj] False have "pj \<noteq> pi \<or> lists c' pj = lists c pj" by auto
        from own pi pj dm False have ne: "pi \<noteq> pj" by (auto simp: own_lists_def)
        from revise_filter [OF pi pj ne] rt
        have "lists c' pi = filter (\<lambda>x. \<exists>y\<in>set (lists c pj). constraints c xi x xj y) (lists c pi)"
          by auto
        moreover from ne have "lists c' pj = lists c pj" by (simp add: other)
        ultimately show ?thesis using dxi pj dm' cs' by (auto simp: supported_arc_def)
      qed
      have kept: "x \<in> set (lists c' pi)"
        if "xi \<noteq> xj" "x \<in> set (lists c pi)" "y \<in> set (lists c pj)" "constraints c xi x xj y"
        for x y
      proof -
        from own pi pj dm that(1) have ne: "pi \<noteq> pj" by (auto simp: own_lists_def)
        from revise_filter [OF pi pj ne] rt
        have "lists c' pi = filter (\<lambda>x. \<exists>y\<in>set (lists c pj). constraints c xi x xj y) (lists c pi)"
          by auto
        with that show ?thesis by auto
      qed
      show ?thesis
      proof (cases "lists c' pi = [] \<or> map_of (neighbors csp) xi = None")
        case True
        with s q ret rt pc' np dxi nb' nb show ?thesis
          by (auto simp: ac3_arcs_inv_def split: option.splits)
      next
        case False
        then obtain ns where ns: "map_of (neighbors csp) xi = Some ns" and
          nonempty: "lists c' pi \<noteq> []"
          by auto
        let ?new = "map (\<lambda>xk. (xk, xi)) (filter (\<lambda>xk. xk \<noteq> xj) ns)"
        have body: "ac3_body s = (rest @ ?new, c', None)"
          using s q ret rt dxi nonempty ns nb' nb by simp
        have np': "\<forall>a\<in>set (rest @ ?new). neighbor_pair csp a"
        proof
          fix a assume "a \<in> set (rest @ ?new)"
          then consider "a \<in> set rest" | xk where "a = (xk, xi)" "xk \<in> set ns" by auto
          then show "neighbor_pair csp a"
          proof cases
            case 1
            with np show ?thesis by blast
          next
            case 2
            from ns 2(2) have "neighbor_pair csp (xi, xk)" by (simp add: neighbor_pair_def)
            with symn have "neighbor_pair csp (xk, xi)" by (auto simp: symmetric_neighbors_def)
            with 2(1) show ?thesis by simp
          qed
        qed
        have enq: "(u, xi) \<in> set (rest @ ?new)" if "neighbor_pair csp (u, xi)" "u \<noteq> xj" for u
        proof -
          from that(1) symn have "neighbor_pair csp (xi, u)"
            by (auto simp: symmetric_neighbors_def)
          with ns have "u \<in> set ns" by (simp add: neighbor_pair_def)
          with that(2) show ?thesis by auto
        qed
        have arcs': "a \<in> set (rest @ ?new) \<or> supported_arc c' (fst a) (snd a)"
          if arc: "is_arc csp a" for a
        proof -
          obtain u v where a: "a = (u, v)" by (cases a)
          from arc a have nuv: "neighbor_pair csp (u, v)" by (simp add: is_arc_def)
          from arcs [OF arc] a
          consider "u = xi \<and> v = xj" | "(u, v) \<in> set rest" | "supported_arc c u v"
            by auto
          then show ?thesis
          proof cases
            case 1
            with popped a show ?thesis by simp
          next
            case 2
            with a show ?thesis by simp
          next
            case 3
            show ?thesis
            proof (cases "v = xi")
              case False
              from 3 dm' cs' sub keep [OF False] have "supported_arc c' u v"
                by (rule supported_arc_shrunk)
              with a show ?thesis by simp
            next
              case vxi: True
              show ?thesis
              proof (cases "u = xj")
                case False
                from enq [OF _ False] nuv vxi a show ?thesis by simp
              next
                case uxj: True
                show ?thesis
                proof (cases "xi = xj")
                  case True
                  with popped uxj vxi a show ?thesis by simp
                next
                  case ne: False
                  from 3 uxj vxi pj pi
                  have sup: "\<forall>y\<in>set (lists c pj). \<exists>x\<in>set (lists c pi). constraints c xj y xi x"
                    by (auto simp: supported_arc_def)
                  have "\<exists>x\<in>set (lists c' pi). constraints c xj y xi x"
                    if y: "y \<in> set (lists c pj)" for y
                  proof -
                    from sup y obtain x where x: "x \<in> set (lists c pi)" "constraints c xj y xi x"
                      by blast
                    from x(2) sym have "constraints c xi x xj y" by simp
                    from kept [OF ne x(1) y this] x(2) show ?thesis by blast
                  qed
                  moreover have "lists c' pj = lists c pj"
                    using keep [of xj pj] ne pj by auto
                  ultimately have "supported_arc c' xj xi"
                    using dxi pj dm' cs' by (auto simp: supported_arc_def)
                  with uxj vxi a show ?thesis by simp
                qed
              qed
            qed
          qed
        qed
        from arcs' have "\<forall>a. is_arc csp a \<longrightarrow>
            a \<in> set (rest @ ?new) \<or> supported_arc c' (fst a) (snd a)"
          by blast
        with pc' np' show ?thesis
          unfolding body by (simp add: ac3_arcs_inv_def)
      qed
    qed
  qed
qed

lemma ac3_arcs_inv_final:
  assumes symn: "symmetric_neighbors csp" and symp: "symmetric_predicate csp"
    and own: "own_lists csp"
    and loop: "ac3_loop (queue, csp, None) = Some (Inr True, csp')"
    and init: "ac3_arcs_inv csp (queue, csp, None)"
  shows "\<exists>q ret. ac3_arcs_inv csp (q, csp', ret) \<and> \<not> ac3_cond (q, csp', ret) \<and>
    Inr True = (case ret of None \<Rightarrow> Inr True | Some x \<Rightarrow> x)"
  by (rule ac3_loop_rule [OF loop, where P = "ac3_arcs_inv csp", OF init
        ac3_arcs_inv_step [OF symn symp own]])

lemma ac3_fixpoint:
  assumes symn: "symmetric_neighbors csp" and symp: "symmetric_predicate csp"
    and own: "own_lists csp"
    and run: "ac3 csp = Some (Inr True, csp')"
  shows "ac3 csp' = Some (Inr True, csp')"
proof -
  from run obtain queue where iq: "initial_queue csp (variables csp) = Inr queue"
    by (cases "initial_queue csp (variables csp)") (auto simp: ac3_def)
  with run have loop: "ac3_loop (queue, csp, None) = Some (Inr True, csp')"
    by (simp add: ac3_def)
  have qset: "set queue = {a. is_arc csp a}"
    using initial_queue_set [OF iq] by (auto simp: is_arc_def neighbor_pair_def)
  have init: "ac3_arcs_inv csp (queue, csp, None)"
    using qset by (simp add: ac3_arcs_inv_def pruned_from_refl is_arc_def)
  from ac3_arcs_inv_final [OF symn symp own loop init]
  obtain q ret where inv: "ac3_arcs_inv csp (q, csp', ret)" and
    stop: "\<not> ac3_cond (q, csp', ret)" and
    res: "Inr True = (case ret of None \<Rightarrow> Inr True | Some x \<Rightarrow> x)"
    by (elim exE conjE)
  have ret: "ret = None"
  proof (cases ret)
    case None then show ?thesis .
  next
    case (Some x)
    with res have "x = Inr True" by simp
    with Some inv show ?thesis by (simp add: ac3_arcs_inv_def)
  qed
  with stop have q: "q = []" by simp
  from inv ret q have all: "\<forall>a. is_arc csp a \<longrightarrow> supported_arc csp' (fst a) (snd a)"
    by (simp add: ac3_arcs_inv_def)
  from inv have pr: "pruned_from csp' csp"
    by (simp add: ac3_arcs_inv_def)
  from pr have "variables csp' = variables csp" "neighbors csp' = neighbors csp"
    by (simp_all add: pruned_from_def)
  with iq have iq': "initial_queue csp' (variables csp') = Inr queue"
    using initial_queue_cong [of csp' csp "variables csp"] by simp
  from all qset have "\<forall>a\<in>set queue. supported_arc csp' (fst a) (snd a)" by simp
  from ac3_loop_supported [OF this] iq' show ?thesis by (simp add: ac3_def)
qed

lemmas ac3_run_simps = ac3_def ac3_loop_def while_option_unfold revise_def ac3_result_def

lemma example_csp_symmetric_neighbors: "symmetric_neighbors example_csp"
  by (auto simp: symmetric_neighbors_def neighbor_pair_def example_csp_def split: if_splits)

lemma example_csp_symmetric_predicate: "symmetric_predicate example_csp"
  by (auto simp: symmetric_predicate_def example_csp_def constraint_def)

lemma example_csp_own_lists: "own_lists example_csp"
  by (auto simp: own_lists_def example_csp_def split: if_splits)

lemma wipeout_hypotheses:
  "symmetric_neighbors (example_csp\<lparr>lists := store_of [[3], [1], [2]]\<rparr>) \<and>
   symmetric_predicate (example_csp\<lparr>lists := store_of [[3], [1], [2]]\<rparr>) \<and>
   own_lists (example_csp\<lparr>lists := store_of [[3], [1], [2]]\<rparr>)"
  using example_csp_symmetric_neighbors example_csp_symmetric_predicate example_csp_own_lists
  by (simp add: symmetric_neighbors_def symmetric_predicate_def own_lists_def neighbor_pair_def)

lemma one_way_predicate_csp_hypotheses:
  "symmetric_neighbors one_way_predicate_csp \<and> own_lists one_way_predicate_csp \<and>
   \<not> symmetric_predicate one_way_predicate_csp"
proof (intro conjI)
  show "symmetric_neighbors one_way_predicate_csp"
    by (auto simp: symmetric_neighbors_def neighbor_pair_def one_way_predicate_csp_def
          split: if_splits)
  show "own_lists one_way_predicate_csp"
    by (auto simp: own_lists_def one_way_predicate_csp_def split: if_splits)
  have "neighbor_pair one_way_predicate_csp (''A'', ''B'')"
    by (simp add: neighbor_pair_def one_way_predicate_csp_def)
  moreover have "constraints one_way_predicate_csp ''A'' 2 ''B'' 2 \<noteq>
      constraints one_way_predicate_csp ''B'' 2 ''A'' 2"
    by (simp add: one_way_predicate_csp_def one_way_predicate_def)
  ultimately show "\<not> symmetric_predicate one_way_predicate_csp"
    unfolding symmetric_predicate_def by (metis fst_conv snd_conv)
qed

lemma one_way_neighbors_csp_hypotheses:
  "symmetric_predicate one_way_neighbors_csp \<and> own_lists one_way_neighbors_csp \<and>
   \<not> symmetric_neighbors one_way_neighbors_csp"
proof (intro conjI)
  show "symmetric_predicate one_way_neighbors_csp"
    by (auto simp: symmetric_predicate_def one_way_neighbors_csp_def equal_values_def)
  show "own_lists one_way_neighbors_csp"
    by (auto simp: own_lists_def one_way_neighbors_csp_def split: if_splits)
  have "neighbor_pair one_way_neighbors_csp (''A'', ''B'')"
    by (simp add: neighbor_pair_def one_way_neighbors_csp_def)
  moreover have "\<not> neighbor_pair one_way_neighbors_csp (''B'', ''A'')"
    by (simp add: neighbor_pair_def one_way_neighbors_csp_def)
  ultimately show "\<not> symmetric_neighbors one_way_neighbors_csp"
    unfolding symmetric_neighbors_def by (metis fst_conv snd_conv)
qed

lemma shared_list_csp_hypotheses:
  "symmetric_neighbors shared_list_csp \<and> symmetric_predicate shared_list_csp \<and>
   \<not> own_lists shared_list_csp"
proof (intro conjI)
  show "symmetric_neighbors shared_list_csp"
    by (auto simp: symmetric_neighbors_def neighbor_pair_def shared_list_csp_def
          split: if_splits)
  show "symmetric_predicate shared_list_csp"
    by (auto simp: symmetric_predicate_def shared_list_csp_def constraint_def)
  have "map_of (domains shared_list_csp) ''A'' = Some 0"
    "map_of (domains shared_list_csp) ''B'' = Some 0"
    by (simp_all add: shared_list_csp_def)
  moreover have "''A'' \<noteq> ''B''" by simp
  ultimately show "\<not> own_lists shared_list_csp"
    unfolding own_lists_def by blast
qed

text \<open>
  C8.  The claim is that a second run of \<^verbatim>\<open>ac3\<close> never changes what the first run
  left.  It fails in four ways.  When the first run returns \<^verbatim>\<open>False\<close> it has stopped at
  the first empty domain, and the second run goes on from there: with the module's
  neighbours and predicate and A = \<open>[3]\<close>, B = \<open>[1]\<close>, C = \<open>[2]\<close> the first run empties A,
  the second B as well.  When the predicate answers differently for an arc and its
  reverse, a removal from B by the arc (B, A) takes the support of a value of A, and the
  arc (A, B) is not revised again: the first run leaves A = \<open>[1,2]\<close>, B = \<open>[1]\<close>, the
  second A = \<open>[1]\<close>.  When B is a neighbour of A but A is not a neighbour of B, a removal
  from B enqueues no arc (A, B): the first run leaves A = \<open>[1,2]\<close>, B = \<open>[1]\<close>, C = \<open>[1]\<close>,
  the second A = \<open>[1]\<close>.  And when A and B refer to one list object \<open>[2,1,3]\<close>, the first
  run returns \<^verbatim>\<open>True\<close> with that list \<open>[2]\<close> and C = \<open>[3]\<close>, and the second empties the
  list and returns \<^verbatim>\<open>False\<close>.  Each of the last three instances has the other two of the
  properties \<open>symmetric_neighbors\<close>, \<open>symmetric_predicate\<close> and \<open>own_lists\<close>.
\<close>

theorem ac3_twice_counterexample:
  "ac3 (example_csp\<lparr>lists := store_of [[3], [1], [2]]\<rparr>) =
     Some (Inr False, example_csp\<lparr>lists := store_of [[], [1], [2]]\<rparr>) \<and>
   ac3 (example_csp\<lparr>lists := store_of [[], [1], [2]]\<rparr>) =
     Some (Inr False, example_csp\<lparr>lists := store_of [[], [], [2]]\<rparr>) \<and>
   ac3 one_way_predicate_csp =
     Some (Inr True, one_way_predicate_csp\<lparr>lists := store_of [[1, 2], [1]]\<rparr>) \<and>
   ac3 (one_way_predicate_csp\<lparr>lists := store_of [[1, 2], [1]]\<rparr>) =
     Some (Inr True, one_way_predicate_csp\<lparr>lists := store_of [[1], [1]]\<rparr>) \<and>
   ac3 one_way_neighbors_csp =
     Some (Inr True, one_way_neighbors_csp\<lparr>lists := store_of [[1, 2], [1], [1]]\<rparr>) \<and>
   ac3 (one_way_neighbors_csp\<lparr>lists := store_of [[1, 2], [1], [1]]\<rparr>) =
     Some (Inr True, one_way_neighbors_csp\<lparr>lists := store_of [[1], [1], [1]]\<rparr>) \<and>
   ac3 shared_list_csp =
     Some (Inr True, shared_list_csp\<lparr>lists := store_of [[2], [], [3]]\<rparr>) \<and>
   ac3 (shared_list_csp\<lparr>lists := store_of [[2], [], [3]]\<rparr>) =
     Some (Inr False, shared_list_csp\<lparr>lists := store_of [[], [], [3]]\<rparr>)"
proof (intro conjI)
  show "ac3 (example_csp\<lparr>lists := store_of [[3], [1], [2]]\<rparr>) =
     Some (Inr False, example_csp\<lparr>lists := store_of [[], [1], [2]]\<rparr>)"
    by (rule wipeout_run)
  show "ac3 (example_csp\<lparr>lists := store_of [[], [1], [2]]\<rparr>) =
     Some (Inr False, example_csp\<lparr>lists := store_of [[], [], [2]]\<rparr>)"
    by (rule wipeout_second_run)
  show "ac3 one_way_predicate_csp =
     Some (Inr True, one_way_predicate_csp\<lparr>lists := store_of [[1, 2], [1]]\<rparr>)"
    by (simp add: ac3_run_simps one_way_predicate_csp_def one_way_predicate_def)
  show "ac3 (one_way_predicate_csp\<lparr>lists := store_of [[1, 2], [1]]\<rparr>) =
     Some (Inr True, one_way_predicate_csp\<lparr>lists := store_of [[1], [1]]\<rparr>)"
    by (simp add: ac3_run_simps one_way_predicate_csp_def one_way_predicate_def)
  show "ac3 one_way_neighbors_csp =
     Some (Inr True, one_way_neighbors_csp\<lparr>lists := store_of [[1, 2], [1], [1]]\<rparr>)"
    by (simp add: ac3_run_simps one_way_neighbors_csp_def equal_values_def)
  show "ac3 (one_way_neighbors_csp\<lparr>lists := store_of [[1, 2], [1], [1]]\<rparr>) =
     Some (Inr True, one_way_neighbors_csp\<lparr>lists := store_of [[1], [1], [1]]\<rparr>)"
    by (simp add: ac3_run_simps one_way_neighbors_csp_def equal_values_def)
  show "ac3 shared_list_csp =
     Some (Inr True, shared_list_csp\<lparr>lists := store_of [[2], [], [3]]\<rparr>)"
    by (simp add: ac3_run_simps shared_list_csp_def constraint_def)
  show "ac3 (shared_list_csp\<lparr>lists := store_of [[2], [], [3]]\<rparr>) =
     Some (Inr False, shared_list_csp\<lparr>lists := store_of [[], [], [3]]\<rparr>)"
    by (simp add: ac3_run_simps shared_list_csp_def constraint_def)
qed

text \<open>
  C8, amended.  On an instance whose neighbour lists are symmetric, whose predicate
  answers the same for a neighbour pair and its reverse, and in which no two variables
  refer to one list object, if the first run of \<^verbatim>\<open>ac3\<close> returns \<^verbatim>\<open>True\<close> then a second
  run returns \<^verbatim>\<open>True\<close> and leaves the instance as the first run left it.
\<close>

theorem ac3_twice_after_true:
  assumes "symmetric_neighbors csp" and "symmetric_predicate csp" and "own_lists csp"
    and "ac3 csp = Some (Inr True, csp')"
  shows "ac3 csp' = Some (Inr True, csp')"
  using assms by (rule ac3_fixpoint)

theorem ac3_twice_after_true_witness:
  "symmetric_neighbors example_csp \<and> symmetric_predicate example_csp \<and>
   own_lists example_csp \<and>
   ac3 example_csp = Some (Inr True, example_csp\<lparr>lists := store_of [[1, 2], [2, 3], [2, 3]]\<rparr>) \<and>
   ac3 (example_csp\<lparr>lists := store_of [[1, 2], [2, 3], [2, 3]]\<rparr>) =
     Some (Inr True, example_csp\<lparr>lists := store_of [[1, 2], [2, 3], [2, 3]]\<rparr>)"
  using ac3_twice_after_true
    [OF example_csp_symmetric_neighbors example_csp_symmetric_predicate example_csp_own_lists
      example_csp_run]
    example_csp_symmetric_neighbors example_csp_symmetric_predicate example_csp_own_lists
    example_csp_run
  by simp

section \<open>The instance of \<^verbatim>\<open>csp_ac3.py\<close>\<close>

text \<open>
  C5.  On the instance at module scope (variables A, B, C; domains \<open>[1,2,3]\<close>,
  \<open>[1,2,3]\<close>, \<open>[2,3]\<close>; B = A + 1 and C \<noteq> B) \<^verbatim>\<open>ac3\<close> returns \<^verbatim>\<open>True\<close> and leaves the
  domains A = \<open>[1,2]\<close>, B = \<open>[2,3]\<close>, C = \<open>[2,3]\<close>.
\<close>

theorem ac3_example_csp:
  "domain_of example_csp ''A'' = Some [1, 2, 3] \<and>
   domain_of example_csp ''B'' = Some [1, 2, 3] \<and>
   domain_of example_csp ''C'' = Some [2, 3] \<and>
   ac3 example_csp =
     Some (Inr True, example_csp\<lparr>lists := store_of [[1, 2], [2, 3], [2, 3]]\<rparr>) \<and>
   domain_of (example_csp\<lparr>lists := store_of [[1, 2], [2, 3], [2, 3]]\<rparr>) ''A'' = Some [1, 2] \<and>
   domain_of (example_csp\<lparr>lists := store_of [[1, 2], [2, 3], [2, 3]]\<rparr>) ''B'' = Some [2, 3] \<and>
   domain_of (example_csp\<lparr>lists := store_of [[1, 2], [2, 3], [2, 3]]\<rparr>) ''C'' = Some [2, 3]"
proof (intro conjI)
  show "ac3 example_csp =
     Some (Inr True, example_csp\<lparr>lists := store_of [[1, 2], [2, 3], [2, 3]]\<rparr>)"
    by (simp add: ac3_def ac3_loop_def example_csp_def while_option_unfold revise_def
          constraint_def ac3_result_def)
qed (simp_all add: domain_of_def example_csp_def)

section \<open>Selection of the next variable\<close>

lemma min_loop_first_min:
  assumes "\<forall>x\<in>set xs. key x = Inr (k x)"
  shows "\<exists>r. min_loop key best kbest xs = Inr r \<and>
     ((r = best \<and> (\<forall>x\<in>set xs. kbest \<le> k x)) \<or>
      (\<exists>pre post. xs = pre @ r # post \<and> k r < kbest \<and>
         (\<forall>u\<in>set pre. k r < k u) \<and> (\<forall>u\<in>set post. k r \<le> k u)))"
  using assms
proof (induction xs arbitrary: best kbest)
  case Nil
  then show ?case by simp
next
  case (Cons x xs)
  have kx: "key x = Inr (k x)" and rest: "\<forall>y\<in>set xs. key y = Inr (k y)"
    using Cons.prems by simp_all
  show ?case
  proof (cases "k x < kbest")
    case True
    from Cons.IH [OF rest, of x "k x"] obtain r where
      r: "min_loop key x (k x) xs = Inr r" and
      alt: "(r = x \<and> (\<forall>y\<in>set xs. k x \<le> k y)) \<or>
        (\<exists>pre post. xs = pre @ r # post \<and> k r < k x \<and>
           (\<forall>u\<in>set pre. k r < k u) \<and> (\<forall>u\<in>set post. k r \<le> k u))"
      by blast
    have res: "min_loop key best kbest (x # xs) = Inr r"
      using True kx r by simp
    from alt show ?thesis
    proof
      assume a: "r = x \<and> (\<forall>y\<in>set xs. k x \<le> k y)"
      then have "x # xs = [] @ r # xs \<and> k r < kbest \<and>
          (\<forall>u\<in>set []. k r < k u) \<and> (\<forall>u\<in>set xs. k r \<le> k u)"
        using True by simp
      then show ?thesis using res by blast
    next
      assume "\<exists>pre post. xs = pre @ r # post \<and> k r < k x \<and>
           (\<forall>u\<in>set pre. k r < k u) \<and> (\<forall>u\<in>set post. k r \<le> k u)"
      then obtain pre post where p: "xs = pre @ r # post" "k r < k x"
          "\<forall>u\<in>set pre. k r < k u" "\<forall>u\<in>set post. k r \<le> k u"
        by blast
      then have "x # xs = (x # pre) @ r # post \<and> k r < kbest \<and>
          (\<forall>u\<in>set (x # pre). k r < k u) \<and> (\<forall>u\<in>set post. k r \<le> k u)"
        using True by auto
      then show ?thesis using res by blast
    qed
  next
    case False
    from Cons.IH [OF rest, of best kbest] obtain r where
      r: "min_loop key best kbest xs = Inr r" and
      alt: "(r = best \<and> (\<forall>y\<in>set xs. kbest \<le> k y)) \<or>
        (\<exists>pre post. xs = pre @ r # post \<and> k r < kbest \<and>
           (\<forall>u\<in>set pre. k r < k u) \<and> (\<forall>u\<in>set post. k r \<le> k u))"
      by blast
    have res: "min_loop key best kbest (x # xs) = Inr r"
      using False kx r by simp
    from alt show ?thesis
    proof
      assume "r = best \<and> (\<forall>y\<in>set xs. kbest \<le> k y)"
      then show ?thesis using res False by auto
    next
      assume "\<exists>pre post. xs = pre @ r # post \<and> k r < kbest \<and>
           (\<forall>u\<in>set pre. k r < k u) \<and> (\<forall>u\<in>set post. k r \<le> k u)"
      then obtain pre post where p: "xs = pre @ r # post" "k r < kbest"
          "\<forall>u\<in>set pre. k r < k u" "\<forall>u\<in>set post. k r \<le> k u"
        by blast
      then have "x # xs = (x # pre) @ r # post \<and> k r < kbest \<and>
          (\<forall>u\<in>set (x # pre). k r < k u) \<and> (\<forall>u\<in>set post. k r \<le> k u)"
        using False by auto
      then show ?thesis using res by blast
    qed
  qed
qed

lemma py_min_first_min:
  assumes "xs \<noteq> []" and "\<forall>x\<in>set xs. key x = Inr (k x)"
  shows "\<exists>r pre post. py_min key xs = Inr r \<and> xs = pre @ r # post \<and>
         (\<forall>u\<in>set pre. k r < k u) \<and> (\<forall>u\<in>set post. k r \<le> k u)"
proof -
  from assms(1) obtain x rest where xs: "xs = x # rest" by (cases xs) auto
  have kx: "key x = Inr (k x)" and rest: "\<forall>y\<in>set rest. key y = Inr (k y)"
    using assms(2) xs by simp_all
  from min_loop_first_min [OF rest, of x "k x"] obtain r where
    r: "min_loop key x (k x) rest = Inr r" and
    alt: "(r = x \<and> (\<forall>y\<in>set rest. k x \<le> k y)) \<or>
      (\<exists>pre post. rest = pre @ r # post \<and> k r < k x \<and>
         (\<forall>u\<in>set pre. k r < k u) \<and> (\<forall>u\<in>set post. k r \<le> k u))"
    by blast
  have res: "py_min key xs = Inr r" using xs kx r by simp
  from alt show ?thesis
  proof
    assume "r = x \<and> (\<forall>y\<in>set rest. k x \<le> k y)"
    then have "xs = [] @ r # rest \<and> (\<forall>u\<in>set []. k r < k u) \<and> (\<forall>u\<in>set rest. k r \<le> k u)"
      using xs by simp
    then show ?thesis using res by blast
  next
    assume "\<exists>pre post. rest = pre @ r # post \<and> k r < k x \<and>
         (\<forall>u\<in>set pre. k r < k u) \<and> (\<forall>u\<in>set post. k r \<le> k u)"
    then obtain pre post where p: "rest = pre @ r # post" "k r < k x"
        "\<forall>u\<in>set pre. k r < k u" "\<forall>u\<in>set post. k r \<le> k u"
      by blast
    then have "xs = (x # pre) @ r # post \<and> (\<forall>u\<in>set (x # pre). k r < k u) \<and>
        (\<forall>u\<in>set post. k r \<le> k u)"
      using xs by auto
    then show ?thesis using res by blast
  qed
qed

lemma filter_split:
  "filter P ys = pre @ r # post \<Longrightarrow>
   \<exists>us vs. ys = us @ r # vs \<and> filter P us = pre \<and> P r \<and> filter P vs = post"
proof (induction ys arbitrary: pre)
  case Nil
  then show ?case by simp
next
  case (Cons y ys)
  show ?case
  proof (cases "P y")
    case False
    with Cons.prems have "filter P ys = pre @ r # post" by simp
    from Cons.IH [OF this] obtain us vs where
      "ys = us @ r # vs" "filter P us = pre" "P r" "filter P vs = post" by blast
    then have "y # ys = (y # us) @ r # vs \<and> filter P (y # us) = pre \<and> P r \<and> filter P vs = post"
      using False by simp
    then show ?thesis by blast
  next
    case True
    show ?thesis
    proof (cases pre)
      case Nil
      with True Cons.prems have "y = r" "filter P ys = post" by simp_all
      then have "y # ys = [] @ r # ys \<and> filter P [] = pre \<and> P r \<and> filter P ys = post"
        using Nil True by simp
      then show ?thesis by blast
    next
      case (Cons p pre')
      with True Cons.prems have py: "y = p" and f: "filter P ys = pre' @ r # post" by simp_all
      from Cons.IH [OF f] obtain us vs where
        "ys = us @ r # vs" "filter P us = pre'" "P r" "filter P vs = post" by blast
      then have "y # ys = (y # us) @ r # vs \<and> filter P (y # us) = pre \<and> P r \<and> filter P vs = post"
        using True py Cons by simp
      then show ?thesis by blast
    qed
  qed
qed

text \<open>
  C7.  When some variable is unassigned (and every unassigned variable has a domain),
  \<^verbatim>\<open>select_unassigned_variable\<close> returns an unassigned variable \<open>var\<close> at a position of
  \<^verbatim>\<open>csp.variables\<close> such that every unassigned variable before it has strictly more
  values left and every unassigned variable after it has at least as many: \<open>var\<close> has the
  fewest remaining values and is the first such variable in the order of the list.
\<close>

theorem select_unassigned_variable_mrv:
  assumes some: "\<exists>v\<in>set (variables csp). map_of assignment v = None"
    and doms: "\<forall>v\<in>set (variables csp). map_of assignment v = None \<longrightarrow> map_of (domains csp) v \<noteq> None"
  shows "\<exists>var pre post.
     select_unassigned_variable assignment csp = Inr var \<and>
     variables csp = pre @ var # post \<and>
     map_of assignment var = None \<and>
     (\<forall>u\<in>set pre. map_of assignment u = None \<longrightarrow> remaining csp var < remaining csp u) \<and>
     (\<forall>u\<in>set post. map_of assignment u = None \<longrightarrow> remaining csp var \<le> remaining csp u)"
proof -
  let ?P = "\<lambda>v. map_of assignment v = None"
  let ?un = "filter ?P (variables csp)"
  let ?key = "\<lambda>var. case map_of (domains csp) var of None \<Rightarrow> Inl KeyError | Some d \<Rightarrow> Inr (length d)"
  have ne: "?un \<noteq> []" using some by (auto simp: filter_empty_conv)
  have keys: "\<forall>x\<in>set ?un. ?key x = Inr (remaining csp x)"
    using doms by (auto simp: remaining_def split: option.splits)
  from py_min_first_min [OF ne keys] obtain r pre post where
    r: "py_min ?key ?un = Inr r" and un: "?un = pre @ r # post" and
    lt: "\<forall>u\<in>set pre. remaining csp r < remaining csp u" and
    le: "\<forall>u\<in>set post. remaining csp r \<le> remaining csp u"
    by blast
  from filter_split [OF un] obtain us vs where
    v: "variables csp = us @ r # vs" and us: "filter ?P us = pre" and pr: "?P r" and
    vs: "filter ?P vs = post"
    by blast
  have sel: "select_unassigned_variable assignment csp = Inr r"
    using r by (simp add: select_unassigned_variable_def)
  have a: "\<forall>u\<in>set us. ?P u \<longrightarrow> remaining csp r < remaining csp u"
    using lt us by auto
  have b: "\<forall>u\<in>set vs. ?P u \<longrightarrow> remaining csp r \<le> remaining csp u"
    using le vs by auto
  from sel v pr a b show ?thesis by blast
qed

theorem select_unassigned_variable_mrv_witness:
  "let csp = \<lparr>variables = [''A'', ''B'', ''C''],
              domains = [(''A'', [1]), (''B'', [2, 3]), (''C'', [2, 3])],
              neighbors = [(''A'', [''B'']), (''B'', [''A'', ''C'']), (''C'', [''B''])],
              constraints = [(''A'', ''B''), (''B'', ''C'')]\<rparr>;
       assignment = [(''A'', 1::int)]
   in (\<exists>v\<in>set (variables csp). map_of assignment v = None) \<and>
      (\<forall>v\<in>set (variables csp).
         map_of assignment v = None \<longrightarrow> map_of (domains csp) v \<noteq> None) \<and>
      (\<exists>var pre post.
         select_unassigned_variable assignment csp = Inr var \<and>
         variables csp = pre @ var # post \<and>
         map_of assignment var = None \<and>
         (\<forall>u\<in>set pre. map_of assignment u = None \<longrightarrow> remaining csp var < remaining csp u) \<and>
         (\<forall>u\<in>set post. map_of assignment u = None \<longrightarrow> remaining csp var \<le> remaining csp u))"
proof -
  let ?csp = "\<lparr>variables = [''A'', ''B'', ''C''],
              domains = [(''A'', [1]), (''B'', [2, 3]), (''C'', [2, 3])],
              neighbors = [(''A'', [''B'']), (''B'', [''A'', ''C'']), (''C'', [''B''])],
              constraints = [(''A'', ''B''), (''B'', ''C'')]\<rparr> :: (string, int) search_csp"
  let ?a = "[(''A'', 1::int)]"
  have h1: "\<exists>v\<in>set (variables ?csp). map_of ?a v = None" by simp
  have h2: "\<forall>v\<in>set (variables ?csp). map_of ?a v = None \<longrightarrow> map_of (domains ?csp) v \<noteq> None"
    by simp
  note c = select_unassigned_variable_mrv [OF h1 h2]
  show ?thesis unfolding Let_def using h1 h2 c by blast
qed

section \<open>Undoing forward checking\<close>

text \<open>
  C1.  The claim is that a failed branch loses no domain value.  On the instance with
  variables X, Y, Z, domains X = \<open>[1]\<close>, Y = \<open>[1,2]\<close>, Z = \<open>[1]\<close> and the pairs (X, Y),
  (X, Z), the search selects X, tries 1, and forward checking removes 1 from Y and then
  from Z, whose domain is now empty: it returns \<^verbatim>\<open>None\<close>, and the record of the two
  removals is gone.  \<^verbatim>\<open>remove_inference\<close> returns at once on \<^verbatim>\<open>None\<close>, so the search
  fails with Y = \<open>[2]\<close> and Z = \<open>[]\<close> instead of the domains it started from.
\<close>

theorem backtrack_conflict_loses_values:
  "CSP [''X'', ''Y'', ''Z''] [(''X'', [1::int]), (''Y'', [1, 2]), (''Z'', [1])]
       [(''X'', ''Y''), (''X'', ''Z'')] =
     Inr \<lparr>variables = [''X'', ''Y'', ''Z''],
          domains = [(''X'', [1]), (''Y'', [1, 2]), (''Z'', [1])],
          neighbors = [(''X'', [''Y'', ''Z'']), (''Y'', [''X'']), (''Z'', [''X''])],
          constraints = [(''X'', ''Y''), (''X'', ''Z'')]\<rparr> \<and>
   forward_checking ''X'' 1 [(''X'', 1)]
     \<lparr>variables = [''X'', ''Y'', ''Z''],
      domains = [(''X'', [1::int]), (''Y'', [1, 2]), (''Z'', [1])],
      neighbors = [(''X'', [''Y'', ''Z'']), (''Y'', [''X'']), (''Z'', [''X''])],
      constraints = [(''X'', ''Y''), (''X'', ''Z'')]\<rparr> =
     (Inr None,
      \<lparr>variables = [''X'', ''Y'', ''Z''],
       domains = [(''X'', [1]), (''Y'', [2]), (''Z'', [])],
       neighbors = [(''X'', [''Y'', ''Z'']), (''Y'', [''X'']), (''Z'', [''X''])],
       constraints = [(''X'', ''Y''), (''X'', ''Z'')]\<rparr>) \<and>
   backtrack 4 []
     \<lparr>variables = [''X'', ''Y'', ''Z''],
      domains = [(''X'', [1::int]), (''Y'', [1, 2]), (''Z'', [1])],
      neighbors = [(''X'', [''Y'', ''Z'']), (''Y'', [''X'']), (''Z'', [''X''])],
      constraints = [(''X'', ''Y''), (''X'', ''Z'')]\<rparr> =
     Some (Inr None, [],
       \<lparr>variables = [''X'', ''Y'', ''Z''],
        domains = [(''X'', [1]), (''Y'', [2]), (''Z'', [])],
        neighbors = [(''X'', [''Y'', ''Z'']), (''Y'', [''X'']), (''Z'', [''X''])],
        constraints = [(''X'', ''Y''), (''X'', ''Z'')]\<rparr>)"
  by (simp add: CSP_def build_neighbors_def forward_checking_def remove_inference_def
        select_unassigned_variable_def domain_values_def is_consistent_def
        eval_nat_numeral)

section \<open>What the search leaves alone\<close>



























section \<open>Termination of the search\<close>











section \<open>What the search returns\<close>













lemma sound_result_None: "sound_result csp (Inr None, asg', csp')"
  by (simp add: sound_result_def)











end
